theory Spec2Isabelle
  imports Complex_Main "HOL-Library.AList"
begin

section \<open>Data model\<close>

text \<open>
  The solver of \<^verbatim>\<open>generate.py\<close> (class \<^verbatim>\<open>CrosswordCreator\<close>) works on a constraint
  graph supplied by the module \<^verbatim>\<open>crossword\<close> and on two dictionaries: \<^verbatim>\<open>self.domains\<close>
  (variable to candidate words) and the assignment (variable to word). Both dictionaries
  are association lists here, in insertion order, as Python dictionaries iterate; a
  dictionary has no key twice. A word is a Python string, one \<open>char\<close> per letter.
\<close>

datatype direction = ACROSS | DOWN

record variable =
  var_i :: nat
  var_j :: nat
  var_direction :: direction
  var_length :: nat

type_synonym word = string
type_synonym domains = "(variable \<times> word list) list"
type_synonym assignment = "(variable \<times> word) list"

text \<open>
  Modelled from the spec: the class \<^verbatim>\<open>Crossword\<close> of the module \<^verbatim>\<open>crossword\<close>, which
  \<^verbatim>\<open>generate.py\<close> imports and which is not among the source files. The spec (sections 3
  and 6) gives it a vocabulary, a set of variables and an overlap lookup that answers,
  for a pair of variables, either "no overlap" or a pair of offsets. The two sets are
  lists here, in the order in which Python iterates them.
\<close>

record crossword =
  words :: "word list"
  variables :: "variable list"
  overlaps :: "variable \<times> variable \<Rightarrow> (nat \<times> nat) option"

text \<open>
  Modelled from the spec: the method \<^verbatim>\<open>Crossword.neighbors\<close>, also missing from the
  source files. Section 3: y is a neighbour of x iff an overlap exists between x and y
  and x differs from y. The result is a Python set.
\<close>

definition neighbors :: "crossword \<Rightarrow> variable \<Rightarrow> variable list" where
  "neighbors cw var =
     filter (\<lambda>v. v \<noteq> var \<and> overlaps cw (v, var) \<noteq> None) (variables cw)"

text \<open>
  The exceptions the solver can raise: an index past the end of a word, a key missing
  from a dictionary, a subscript on \<^verbatim>\<open>None\<close>. \<open>OutOfFuel\<close> is not a Python exception:
  it is the answer of the recursion of \<open>backtrack\<close> below when its depth bound is used up.
\<close>

datatype error = IndexError | KeyError | TypeError | OutOfFuel

text \<open>\<^verbatim>\<open>word[k]\<close> for an offset \<open>k\<close> that is not negative.\<close>

definition char_at :: "word \<Rightarrow> nat \<Rightarrow> error + char" where
  "char_at w k = (if k < length w then Inr (w ! k) else Inl IndexError)"

text \<open>\<^verbatim>\<open>d[k]\<close> on a dictionary.\<close>

definition lookup :: "('k \<times> 'v) list \<Rightarrow> 'k \<Rightarrow> error + 'v" where
  "lookup d k = (case map_of d k of None \<Rightarrow> Inl KeyError | Some v \<Rightarrow> Inr v)"

text \<open>
  Python leaves the order in which a set is iterated open. Wherever the solver iterates
  over a set that it has just built, the model applies a parameter \<open>so\<close> to the list of
  the set's elements; the theorems hold for every \<open>so\<close> that only reorders its argument.
\<close>

type_synonym set_order = "variable list \<Rightarrow> variable list"

section \<open>The solver\<close>

subsection \<open>Construction and node consistency\<close>

text \<open>\<^verbatim>\<open>__init__\<close>: every variable starts with a copy of the whole vocabulary.\<close>

definition init_domains :: "crossword \<Rightarrow> domains" where
  "init_domains cw = map (\<lambda>var. (var, words cw)) (variables cw)"

text \<open>
  \<^verbatim>\<open>enforce_node_consistency\<close>: the loop replaces the value of every key by the words
  of that value that have the variable's length.
\<close>

definition enforce_node_consistency :: "domains \<Rightarrow> domains" where
  "enforce_node_consistency doms =
     map (\<lambda>(var, ws). (var, filter (\<lambda>word. length word = var_length var) ws)) doms"

subsection \<open>Arc revision\<close>

text \<open>
  The inner loop of \<^verbatim>\<open>revise\<close> for one \<open>x_word\<close>: scan the words of \<open>y\<close> and stop at
  the first one that has the same letter at the overlap.
\<close>

fun has_partner :: "nat \<times> nat \<Rightarrow> word \<Rightarrow> word list \<Rightarrow> error + bool" where
  "has_partner ov x_word [] = Inr False"
| "has_partner ov x_word (y_word # ys) =
     (case char_at x_word (fst ov) of
        Inl e \<Rightarrow> Inl e
      | Inr a \<Rightarrow>
          (case char_at y_word (snd ov) of
             Inl e \<Rightarrow> Inl e
           | Inr b \<Rightarrow> if a = b then Inr True else has_partner ov x_word ys))"

text \<open>
  The outer loop of \<^verbatim>\<open>revise\<close>: \<^verbatim>\<open>self.domains[y]\<close> is looked up once for each
  \<open>x_word\<close>, so a missing key \<open>y\<close> only matters when the domain of \<open>x\<close> has a word.
\<close>

fun keep_words :: "nat \<times> nat \<Rightarrow> word list \<Rightarrow> error + word list \<Rightarrow> error + word list" where
  "keep_words ov [] dy = Inr []"
| "keep_words ov (x_word # xs) dy =
     (case dy of
        Inl e \<Rightarrow> Inl e
      | Inr ys \<Rightarrow>
          (case has_partner ov x_word ys of
             Inl e \<Rightarrow> Inl e
           | Inr found \<Rightarrow>
               (case keep_words ov xs dy of
                  Inl e \<Rightarrow> Inl e
                | Inr keep \<Rightarrow> Inr (if found then x_word # keep else keep))))"

text \<open>
  \<^verbatim>\<open>revise\<close> returns its boolean, or the exception it raises, together with
  \<^verbatim>\<open>self.domains\<close> as the call leaves it: the only assignment to it is the last
  statement before \<^verbatim>\<open>return\<close>, so an exception leaves it as it was.
\<close>

definition revise :: "crossword \<Rightarrow> variable \<Rightarrow> variable \<Rightarrow> domains \<Rightarrow> (error + bool) \<times> domains" where
  "revise cw x y doms =
     (case overlaps cw (x, y) of
        None \<Rightarrow> (Inr False, doms)
      | Some intersection \<Rightarrow>
          (case lookup doms x of
             Inl e \<Rightarrow> (Inl e, doms)
           | Inr dx \<Rightarrow>
               (case keep_words intersection dx (lookup doms y) of
                  Inl e \<Rightarrow> (Inl e, doms)
                | Inr keep \<Rightarrow>
                    (Inr (length keep \<noteq> length dx), AList.update x keep doms))))"

subsection \<open>Arc consistency\<close>

text \<open>The work list that \<^verbatim>\<open>ac3\<close> builds when it is given no arcs.\<close>

definition initial_arcs :: "set_order \<Rightarrow> crossword \<Rightarrow> domains \<Rightarrow> (variable \<times> variable) list" where
  "initial_arcs so cw doms =
     concat (map (\<lambda>v1. map (\<lambda>v2. (v1, v2)) (so (neighbors cw v1))) (map fst doms))"

text \<open>The sum of the sizes of all domains: what every successful revision decreases.\<close>

definition total_size :: "domains \<Rightarrow> nat" where
  "total_size doms = sum_list (map (\<lambda>(v, ws). length ws) doms)"

lemma keep_words_filter:
  "keep_words ov xs (Inr ys) = Inr keep \<Longrightarrow>
     keep = filter (\<lambda>w. has_partner ov w ys = Inr True) xs"
proof (induction xs arbitrary: keep)
  case Nil
  then show ?case by simp
next
  case (Cons w xs)
  then show ?case by (auto split: sum.splits)
qed

lemma keep_words_sublist:
  assumes "keep_words ov xs dy = Inr keep"
  shows "\<exists>P. keep = filter P xs"
proof (cases dy)
  case (Inl e)
  with assms have "keep = filter (\<lambda>w. True) xs" by (cases xs) auto
  then show ?thesis by blast
next
  case (Inr ys)
  with assms have "keep = filter (\<lambda>w. has_partner ov w ys = Inr True) xs"
    by (auto dest: keep_words_filter)
  then show ?thesis by blast
qed

lemma total_size_update:
  "map_of doms x = Some dx \<Longrightarrow>
     total_size (AList.update x keep doms) + length dx = total_size doms + length keep"
  by (induction doms) (auto simp: total_size_def)

text \<open>What a call of \<open>revise\<close> that got as far as its last statement did.\<close>

lemma revise_Inr_cases:
  assumes "revise cw x y doms = (Inr changed, doms')"
  obtains (none) "overlaps cw (x, y) = None" "\<not> changed" "doms' = doms"
  | (some) ov dx P where "overlaps cw (x, y) = Some ov" "map_of doms x = Some dx"
      "keep_words ov dx (lookup doms y) = Inr (filter P dx)"
      "changed \<longleftrightarrow> length (filter P dx) \<noteq> length dx"
      "doms' = AList.update x (filter P dx) doms"
proof (cases "overlaps cw (x, y)")
  case None
  with assms show ?thesis by (intro none) (auto simp: revise_def)
next
  case (Some ov)
  with assms obtain dx keep where
    dx: "map_of doms x = Some dx" and
    kw: "keep_words ov dx (lookup doms y) = Inr keep" and
    ch: "changed \<longleftrightarrow> length keep \<noteq> length dx" and
    d': "doms' = AList.update x keep doms"
    by (auto simp: revise_def lookup_def split: option.splits sum.splits)
  from kw obtain P where "keep = filter P dx" using keep_words_sublist by blast
  with Some dx kw ch d' show ?thesis by (intro some) auto
qed

lemma revise_changed_shrinks:
  assumes "revise cw x y doms = (Inr True, doms')"
  shows "total_size doms' < total_size doms"
  using assms
proof (cases rule: revise_Inr_cases)
  case none
  then show ?thesis by simp
next
  case (some ov dx P)
  from some(4) have "length (filter P dx) \<noteq> length dx" by simp
  then have "length (filter P dx) < length dx"
    using length_filter_le [of P dx] by linarith
  with total_size_update [OF some(2), of "filter P dx"] some(5) show ?thesis by simp
qed

lemma revise_unchanged_same:
  assumes "revise cw x y doms = (Inr False, doms')"
  shows "doms' = doms"
  using assms
proof (cases rule: revise_Inr_cases)
  case none
  then show ?thesis by simp
next
  case (some ov dx P)
  then have "length (filter P dx) = length dx" by simp
  then have "filter P dx = dx" by (metis length_filter_less filter_True less_irrefl)
  with some show ?thesis by (simp add: update_triv)
qed

text \<open>
  \<^verbatim>\<open>ac3\<close>, the loop: \<open>arcs\<close> is the Python list, \<^verbatim>\<open>arcs.pop()\<close> takes its last element
  and \<^verbatim>\<open>arcs.append\<close> adds at the end. The result is the boolean, or the exception
  raised, together with \<^verbatim>\<open>self.domains\<close> as the call leaves it.
\<close>

function ac3_loop ::
  "set_order \<Rightarrow> crossword \<Rightarrow> (variable \<times> variable) list \<Rightarrow> domains \<Rightarrow> (error + bool) \<times> domains" where
  "ac3_loop so cw arcs doms =
     (if arcs = [] then (Inr True, doms)
      else
        (case last arcs of (x, y) \<Rightarrow>
           (case revise cw x y doms of
              (Inl e, doms') \<Rightarrow> (Inl e, doms')
            | (Inr changed, doms') \<Rightarrow>
                if changed then
                  (case lookup doms' x of
                     Inl e \<Rightarrow> (Inl e, doms')
                   | Inr dx \<Rightarrow>
                       if length dx = 0 then (Inr False, doms')
                       else ac3_loop so cw
                              (butlast arcs @ map (\<lambda>z. (z, x)) (so (removeAll y (neighbors cw x))))
                              doms')
                else ac3_loop so cw (butlast arcs) doms')))"
  by pat_completeness auto
termination
proof (relation "measures [\<lambda>(so, cw, arcs, doms). total_size doms, \<lambda>(so, cw, arcs, doms). length arcs]")
  show "wf (measures [\<lambda>(so, cw, arcs, doms). total_size doms, \<lambda>(so, cw, arcs, doms). length arcs])"
    by simp
next
  fix so :: set_order and cw and arcs :: "(variable \<times> variable) list"
    and doms x y r r' changed doms' dx
  assume "(r', doms') = revise cw x y doms" "r' = Inr changed" "changed"
  then have "revise cw x y doms = (Inr True, doms')" by auto
  then have "total_size doms' < total_size doms" by (rule revise_changed_shrinks)
  then show "((so, cw, butlast arcs @ map (\<lambda>z. (z, x)) (so (removeAll y (neighbors cw x))), doms'),
              (so, cw, arcs, doms))
             \<in> measures [\<lambda>(so, cw, arcs, doms). total_size doms, \<lambda>(so, cw, arcs, doms). length arcs]"
    by simp
next
  fix so :: set_order and cw and arcs :: "(variable \<times> variable) list"
    and doms x y r' changed doms'
  assume "arcs \<noteq> []" "(r', doms') = revise cw x y doms" "r' = Inr changed" "\<not> changed"
  then have "revise cw x y doms = (Inr False, doms')" by auto
  then have "doms' = doms" by (rule revise_unchanged_same)
  with \<open>arcs \<noteq> []\<close> show "((so, cw, butlast arcs, doms'), (so, cw, arcs, doms))
             \<in> measures [\<lambda>(so, cw, arcs, doms). total_size doms, \<lambda>(so, cw, arcs, doms). length arcs]"
    by simp
qed

text \<open>\<^verbatim>\<open>ac3\<close> as \<^verbatim>\<open>solve\<close> calls it, with \<^verbatim>\<open>arcs=None\<close>.\<close>

definition ac3 :: "set_order \<Rightarrow> crossword \<Rightarrow> domains \<Rightarrow> (error + bool) \<times> domains" where
  "ac3 so cw doms = ac3_loop so cw (initial_arcs so cw doms) doms"

subsection \<open>Complete and consistent assignments\<close>

text \<open>\<^verbatim>\<open>assignment_complete\<close>: every key of \<^verbatim>\<open>self.domains\<close> is a key of the assignment.\<close>

definition assignment_complete :: "domains \<Rightarrow> assignment \<Rightarrow> bool" where
  "assignment_complete doms a = list_all (\<lambda>var. var \<in> set (map fst a)) (map fst doms)"

text \<open>
  The inner loop of \<^verbatim>\<open>consistent\<close>, for one \<open>v1\<close> bound to \<open>w1\<close>, over the entries
  \<open>(v2, w2)\<close> of the assignment. \<open>w1\<close> is indexed before \<open>w2\<close>.
\<close>

fun consistent_with :: "crossword \<Rightarrow> variable \<Rightarrow> word \<Rightarrow> assignment \<Rightarrow> error + bool" where
  "consistent_with cw v1 w1 [] = Inr True"
| "consistent_with cw v1 w1 ((v2, w2) # rest) =
     (if v1 = v2 then consistent_with cw v1 w1 rest
      else if w1 = w2 then Inr False
      else
        (case overlaps cw (v1, v2) of
           None \<Rightarrow> consistent_with cw v1 w1 rest
         | Some intersection \<Rightarrow>
             (case char_at w1 (fst intersection) of
                Inl e \<Rightarrow> Inl e
              | Inr a \<Rightarrow>
                  (case char_at w2 (snd intersection) of
                     Inl e \<Rightarrow> Inl e
                   | Inr b \<Rightarrow> if a \<noteq> b then Inr False else consistent_with cw v1 w1 rest))))"

text \<open>The outer loop of \<^verbatim>\<open>consistent\<close>, over the entries that are still to visit.\<close>

fun consistent_from :: "crossword \<Rightarrow> assignment \<Rightarrow> assignment \<Rightarrow> error + bool" where
  "consistent_from cw [] a = Inr True"
| "consistent_from cw ((v1, w1) # rest) a =
     (if length w1 \<noteq> var_length v1 then Inr False
      else
        (case consistent_with cw v1 w1 a of
           Inl e \<Rightarrow> Inl e
         | Inr ok \<Rightarrow> if ok then consistent_from cw rest a else Inr False))"

definition consistent :: "crossword \<Rightarrow> assignment \<Rightarrow> error + bool" where
  "consistent cw a = consistent_from cw a a"

subsection \<open>Value ordering\<close>

text \<open>
  The test of \<^verbatim>\<open>count_removed_in_neighbors\<close> for one word \<open>w\<close> of a neighbour:
  \<^verbatim>\<open>word == w or word[intersection[0]] != w[intersection[1]]\<close>. The right operand is
  only evaluated when the words differ; a subscript on \<^verbatim>\<open>None\<close> is a TypeError.
\<close>

definition rules_out :: "(nat \<times> nat) option \<Rightarrow> word \<Rightarrow> word \<Rightarrow> error + bool" where
  "rules_out intersection word w =
     (if word = w then Inr True
      else
        (case intersection of
           None \<Rightarrow> Inl TypeError
         | Some ov \<Rightarrow>
             (case char_at word (fst ov) of
                Inl e \<Rightarrow> Inl e
              | Inr a \<Rightarrow>
                  (case char_at w (snd ov) of
                     Inl e \<Rightarrow> Inl e
                   | Inr b \<Rightarrow> Inr (a \<noteq> b)))))"

text \<open>The inner loop of \<^verbatim>\<open>count_removed_in_neighbors\<close>, over the words of one neighbour.\<close>

fun count_words :: "(nat \<times> nat) option \<Rightarrow> word \<Rightarrow> word list \<Rightarrow> error + nat" where
  "count_words intersection word [] = Inr 0"
| "count_words intersection word (w # ws) =
     (case rules_out intersection word w of
        Inl e \<Rightarrow> Inl e
      | Inr b \<Rightarrow>
          (case count_words intersection word ws of
             Inl e \<Rightarrow> Inl e
           | Inr n \<Rightarrow> Inr ((if b then 1 else 0) + n)))"

fun count_removed_in_neighbors ::
  "crossword \<Rightarrow> domains \<Rightarrow> variable \<Rightarrow> word \<Rightarrow> variable list \<Rightarrow> error + nat" where
  "count_removed_in_neighbors cw doms var word [] = Inr 0"
| "count_removed_in_neighbors cw doms var word (neighbor # rest) =
     (case lookup doms neighbor of
        Inl e \<Rightarrow> Inl e
      | Inr ws \<Rightarrow>
          (case count_words (overlaps cw (var, neighbor)) word ws of
             Inl e \<Rightarrow> Inl e
           | Inr n \<Rightarrow>
               (case count_removed_in_neighbors cw doms var word rest of
                  Inl e \<Rightarrow> Inl e
                | Inr m \<Rightarrow> Inr (n + m))))"

text \<open>
  \<^verbatim>\<open>sorted(xs, key=f)\<close> and \<^verbatim>\<open>xs.sort(key=f)\<close>: Python computes the key of every
  element, in order, and then sorts by the keys alone; the sort is stable.
\<close>

fun keyed :: "('a \<Rightarrow> error + 'k) \<Rightarrow> 'a list \<Rightarrow> error + ('k \<times> 'a) list" where
  "keyed f [] = Inr []"
| "keyed f (x # xs) =
     (case f x of
        Inl e \<Rightarrow> Inl e
      | Inr k \<Rightarrow>
          (case keyed f xs of
             Inl e \<Rightarrow> Inl e
           | Inr ks \<Rightarrow> Inr ((k, x) # ks)))"

definition py_sorted :: "('a \<Rightarrow> error + 'k::linorder) \<Rightarrow> 'a list \<Rightarrow> error + 'a list" where
  "py_sorted f xs =
     (case keyed f xs of
        Inl e \<Rightarrow> Inl e
      | Inr ks \<Rightarrow> Inr (map snd (sort_key fst ks)))"

definition order_domain_values ::
  "set_order \<Rightarrow> crossword \<Rightarrow> domains \<Rightarrow> variable \<Rightarrow> assignment \<Rightarrow> error + word list" where
  "order_domain_values so cw doms var a =
     (let nbrs = so (filter (\<lambda>v. v \<notin> set (map fst a)) (neighbors cw var))
      in case lookup doms var of
           Inl e \<Rightarrow> Inl e
         | Inr ws \<Rightarrow> py_sorted (\<lambda>word. count_removed_in_neighbors cw doms var word nbrs) ws)"

subsection \<open>Variable selection\<close>

text \<open>
  The sort key of \<^verbatim>\<open>select_unassigned_variable\<close> is a Python float, an IEEE 754
  double. A double is the rational number it stands for; \<open>fl\<close> rounds a rational to the
  nearest double, ties to the even significand, as every operation on doubles does. The
  exponent range is left out: the numbers here lie between a thousandth and the length
  of a list, far from the smallest and the largest double.
\<close>

fun bit_length :: "nat \<Rightarrow> nat" where
  "bit_length n = (if n = 0 then 0 else Suc (bit_length (n div 2)))"

definition binary_exponent :: "rat \<Rightarrow> int" where
  "binary_exponent q =
     (if 1 \<le> q then int (bit_length (nat \<lfloor>q\<rfloor>)) - 1
      else - int (bit_length (nat \<lceil>1 / q\<rceil> - 1)))"

definition pow2 :: "int \<Rightarrow> rat" where
  "pow2 e = (if 0 \<le> e then 2 ^ nat e else 1 / 2 ^ nat (- e))"

definition round_half_even :: "rat \<Rightarrow> int" where
  "round_half_even q =
     (let f = \<lfloor>q\<rfloor>; r = q - of_int f
      in if r < 1 / 2 then f else if 1 / 2 < r then f + 1 else if even f then f else f + 1)"

definition fl :: "rat \<Rightarrow> rat" where
  "fl q =
     (if q = 0 then 0
      else let ulp = pow2 (binary_exponent \<bar>q\<bar> - 52)
           in of_int (round_half_even (q / ulp)) * ulp)"

text \<open>\<^verbatim>\<open>len(self.domains[v]) - len(self.crossword.neighbors(v)) * 0.001\<close>\<close>

definition select_key :: "crossword \<Rightarrow> domains \<Rightarrow> variable \<Rightarrow> error + rat" where
  "select_key cw doms v =
     (case lookup doms v of
        Inl e \<Rightarrow> Inl e
      | Inr ws \<Rightarrow>
          Inr (fl (fl (of_nat (length ws))
                   - fl (fl (of_nat (length (neighbors cw v))) * fl (1 / 1000)))))"

text \<open>
  \<^verbatim>\<open>select_unassigned_variable\<close>: the list of a set difference, sorted by the key;
  \<^verbatim>\<open>unassigned[0]\<close> raises IndexError on an empty list.
\<close>

definition select_unassigned_variable ::
  "set_order \<Rightarrow> crossword \<Rightarrow> domains \<Rightarrow> assignment \<Rightarrow> error + variable" where
  "select_unassigned_variable so cw doms a =
     (let unassigned = so (filter (\<lambda>v. v \<notin> set (map fst a)) (map fst doms))
      in case py_sorted (select_key cw doms) unassigned of
           Inl e \<Rightarrow> Inl e
         | Inr [] \<Rightarrow> Inl IndexError
         | Inr (v # rest) \<Rightarrow> Inr v)"

subsection \<open>Backtracking search\<close>

text \<open>
  \<^verbatim>\<open>backtrack\<close> and the loop over the values in its body. The assignment is one
  dictionary that every frame of the recursion changes in place, so each function returns
  its result together with the dictionary as the call leaves it. The recursion of
  \<open>backtrack\<close> is bounded by \<open>fuel\<close>, the number of frames it may still open.
\<close>

fun backtrack ::
    "set_order \<Rightarrow> crossword \<Rightarrow> domains \<Rightarrow> nat \<Rightarrow> assignment
       \<Rightarrow> error + (assignment option \<times> assignment)"
  and try_values ::
    "set_order \<Rightarrow> crossword \<Rightarrow> domains \<Rightarrow> nat \<Rightarrow> variable \<Rightarrow> word list \<Rightarrow> assignment
       \<Rightarrow> error + (assignment option \<times> assignment)" where
  "backtrack so cw doms 0 a = Inl OutOfFuel"
| "backtrack so cw doms (Suc fuel) a =
     (if assignment_complete doms a then Inr (Some a, a)
      else
        (case select_unassigned_variable so cw doms a of
           Inl e \<Rightarrow> Inl e
         | Inr var \<Rightarrow>
             (case order_domain_values so cw doms var a of
                Inl e \<Rightarrow> Inl e
              | Inr vals \<Rightarrow> try_values so cw doms fuel var vals a)))"
| "try_values so cw doms fuel var [] a = Inr (None, a)"
| "try_values so cw doms fuel var (val # rest) a =
     (let a1 = AList.update var val a
      in case consistent cw a1 of
           Inl e \<Rightarrow> Inl e
         | Inr ok \<Rightarrow>
             if ok then
               (case backtrack so cw doms fuel a1 of
                  Inl e \<Rightarrow> Inl e
                | Inr (None, a2) \<Rightarrow> try_values so cw doms fuel var rest (AList.delete var a2)
                | Inr (Some result, a2) \<Rightarrow> Inr (Some result, a2))
             else try_values so cw doms fuel var rest (AList.delete var a1))"

subsection \<open>The entry point\<close>

text \<open>
  \<^verbatim>\<open>solve\<close> calls three methods one after the other. The model returns the list of
  the calls made together with the value returned (or the exception raised).
\<close>

datatype call = Call_enforce_node_consistency | Call_ac3 | Call_backtrack

definition solve ::
  "set_order \<Rightarrow> crossword \<Rightarrow> nat \<Rightarrow> call list \<times> (error + assignment option)" where
  "solve so cw fuel =
     (let doms1 = enforce_node_consistency (init_domains cw)
      in case ac3 so cw doms1 of
           (Inl e, doms2) \<Rightarrow> ([Call_enforce_node_consistency, Call_ac3], Inl e)
         | (Inr ok, doms2) \<Rightarrow>
             ([Call_enforce_node_consistency, Call_ac3, Call_backtrack],
              (case backtrack so cw doms2 fuel [] of
                 Inl e \<Rightarrow> Inl e
               | Inr (result, a) \<Rightarrow> Inr result)))"

declare ac3_loop.simps [simp del]

section \<open>Facts about the search\<close>

lemma try_values_Cons_cases:
  obtains (raised) e where "consistent cw (AList.update var val a) = Inl e"
      "try_values so cw doms fuel var (val # rest) a = Inl e"
  | (inconsistent) "consistent cw (AList.update var val a) = Inr False"
      "try_values so cw doms fuel var (val # rest) a =
         try_values so cw doms fuel var rest (AList.delete var (AList.update var val a))"
  | (deeper_raised) e where "consistent cw (AList.update var val a) = Inr True"
      "backtrack so cw doms fuel (AList.update var val a) = Inl e"
      "try_values so cw doms fuel var (val # rest) a = Inl e"
  | (found) r a2 where "consistent cw (AList.update var val a) = Inr True"
      "backtrack so cw doms fuel (AList.update var val a) = Inr (Some r, a2)"
      "try_values so cw doms fuel var (val # rest) a = Inr (Some r, a2)"
  | (failed) a2 where "consistent cw (AList.update var val a) = Inr True"
      "backtrack so cw doms fuel (AList.update var val a) = Inr (None, a2)"
      "try_values so cw doms fuel var (val # rest) a =
         try_values so cw doms fuel var rest (AList.delete var a2)"
proof (cases "consistent cw (AList.update var val a)")
  case (Inl e)
  then show ?thesis by (intro raised [of e]) simp_all
next
  case (Inr ok)
  show ?thesis
  proof (cases ok)
    case False
    with Inr show ?thesis by (intro inconsistent) simp_all
  next
    case True
    show ?thesis
    proof (cases "backtrack so cw doms fuel (AList.update var val a)")
      case (Inl e)
      with Inr True show ?thesis by (intro deeper_raised [of e]) simp_all
    next
      case res: (Inr p)
      obtain ro a2 where p: "p = (ro, a2)" by (cases p)
      show ?thesis
      proof (cases ro)
        case None
        with Inr True res p show ?thesis by (intro failed [of a2]) simp_all
      next
        case (Some r)
        with Inr True res p show ?thesis by (intro found [of r a2]) simp_all
      qed
    qed
  qed
qed

lemma backtrack_Suc_cases:
  obtains (complete) "assignment_complete doms a"
      "backtrack so cw doms (Suc fuel) a = Inr (Some a, a)"
  | (no_variable) e where "\<not> assignment_complete doms a"
      "select_unassigned_variable so cw doms a = Inl e"
      "backtrack so cw doms (Suc fuel) a = Inl e"
  | (no_values) var e where "\<not> assignment_complete doms a"
      "select_unassigned_variable so cw doms a = Inr var"
      "order_domain_values so cw doms var a = Inl e"
      "backtrack so cw doms (Suc fuel) a = Inl e"
  | (search) var vals where "\<not> assignment_complete doms a"
      "select_unassigned_variable so cw doms a = Inr var"
      "order_domain_values so cw doms var a = Inr vals"
      "backtrack so cw doms (Suc fuel) a = try_values so cw doms fuel var vals a"
proof (cases "assignment_complete doms a")
  case True
  then show ?thesis by (intro complete) simp_all
next
  case nc: False
  show ?thesis
  proof (cases "select_unassigned_variable so cw doms a")
    case (Inl e)
    with nc show ?thesis by (intro no_variable [of e]) simp_all
  next
    case (Inr var)
    show ?thesis
    proof (cases "order_domain_values so cw doms var a")
      case (Inl e)
      with nc Inr show ?thesis by (intro no_values [of var e]) simp_all
    next
      case vals: (Inr vals)
      with nc Inr show ?thesis by (intro search [of var vals]) simp_all
    qed
  qed
qed

lemma backtrack_rounds [case_names no_fuel frame no_value try_value]:
  assumes "\<And>a. P 0 a"
    and "\<And>fuel a.
      (\<And>var vals. \<not> assignment_complete doms a \<Longrightarrow>
          select_unassigned_variable so cw doms a = Inr var \<Longrightarrow>
          order_domain_values so cw doms var a = Inr vals \<Longrightarrow> Q fuel var vals a) \<Longrightarrow>
      P (Suc fuel) a"
    and "\<And>fuel var a. Q fuel var [] a"
    and "\<And>fuel var val rest a.
      (consistent cw (AList.update var val a) = Inr True \<Longrightarrow> P fuel (AList.update var val a)) \<Longrightarrow>
      (\<And>a2. consistent cw (AList.update var val a) = Inr True \<Longrightarrow>
          backtrack so cw doms fuel (AList.update var val a) = Inr (None, a2) \<Longrightarrow>
          Q fuel var rest (AList.delete var a2)) \<Longrightarrow>
      (consistent cw (AList.update var val a) = Inr False \<Longrightarrow>
          Q fuel var rest (AList.delete var (AList.update var val a))) \<Longrightarrow>
      Q fuel var (val # rest) a"
  shows "P fuel a" and "Q fuel var vals a"
proof -
  have "(so' = so \<longrightarrow> cw' = cw \<longrightarrow> doms' = doms \<longrightarrow> P fuel a)"
    and "(so'' = so \<longrightarrow> cw'' = cw \<longrightarrow> doms'' = doms \<longrightarrow> Q fuel' var vals a')"
    for so' cw' doms' so'' cw'' doms'' fuel' a'
  proof (induction so' cw' doms' fuel a and so'' cw'' doms'' fuel' var vals a'
      rule: backtrack_try_values.induct)
    case (1 so cw doms a)
    show ?case by (simp add: assms(1))
  next
    case (2 so' cw' doms' fuel a)
    show ?case
    proof (intro impI)
      assume eq: "so' = so" "cw' = cw" "doms' = doms"
      show "P (Suc fuel) a"
        by (rule assms(2)) (use 2 eq in auto)
    qed
  next
    case (3 so cw doms fuel var a)
    show ?case by (simp add: assms(3))
  next
    case (4 so' cw' doms' fuel var val rest a)
    show ?case
    proof (intro impI)
      assume eq: "so' = so" "cw' = cw" "doms' = doms"
      show "Q fuel var (val # rest) a"
      proof (rule assms(4))
        assume "consistent cw (AList.update var val a) = Inr True"
        then show "P fuel (AList.update var val a)" using 4(1) eq by auto
      next
        fix a2
        assume "consistent cw (AList.update var val a) = Inr True"
          "backtrack so cw doms fuel (AList.update var val a) = Inr (None, a2)"
        then show "Q fuel var rest (AList.delete var a2)"
          using 4(2) [of "AList.update var val a" True "(None, a2)" None a2] eq by auto
      next
        assume "consistent cw (AList.update var val a) = Inr False"
        then show "Q fuel var rest (AList.delete var (AList.update var val a))"
          using 4(3) eq by auto
      qed
    qed
  qed
  then show "P fuel a" and "Q fuel var vals a" by auto
qed

declare backtrack.simps [simp del] try_values.simps [simp del]

section \<open>What the claims speak about\<close>

text \<open>
  The three invariants of section 8 of the spec, in its words, for an assignment given
  by its entries: the word bound to a variable has the variable's length; two different
  variables are not bound to the same word; two different variables with an overlap
  \<open>(ix, iy)\<close> are bound to words that agree at the offsets \<open>ix\<close> and \<open>iy\<close>.
\<close>

definition length_invariant :: "assignment \<Rightarrow> bool" where
  "length_invariant a \<longleftrightarrow> (\<forall>(v, w) \<in> set a. length w = var_length v)"

definition distinctness_invariant :: "assignment \<Rightarrow> bool" where
  "distinctness_invariant a \<longleftrightarrow>
     (\<forall>(v1, w1) \<in> set a. \<forall>(v2, w2) \<in> set a. v1 \<noteq> v2 \<longrightarrow> w1 \<noteq> w2)"

definition overlap_invariant :: "crossword \<Rightarrow> assignment \<Rightarrow> bool" where
  "overlap_invariant cw a \<longleftrightarrow>
     (\<forall>(v1, w1) \<in> set a. \<forall>(v2, w2) \<in> set a. v1 \<noteq> v2 \<longrightarrow>
        (case overlaps cw (v1, v2) of
           None \<Rightarrow> True
         | Some (ix, iy) \<Rightarrow> ix < length w1 \<and> iy < length w2 \<and> w1 ! ix = w2 ! iy))"

definition satisfies :: "crossword \<Rightarrow> assignment \<Rightarrow> bool" where
  "satisfies cw a \<longleftrightarrow> length_invariant a \<and> distinctness_invariant a \<and> overlap_invariant cw a"

text \<open>An assignment drawn from a domain store: every word bound is in the domain of its variable.\<close>

definition drawn_from :: "domains \<Rightarrow> assignment \<Rightarrow> bool" where
  "drawn_from doms a \<longleftrightarrow>
     (\<forall>(v, w) \<in> set a. case lookup doms v of Inl e \<Rightarrow> False | Inr ws \<Rightarrow> w \<in> set ws)"

text \<open>A complete assignment drawn from the domains that satisfies all constraints.\<close>

definition solution :: "crossword \<Rightarrow> domains \<Rightarrow> assignment \<Rightarrow> bool" where
  "solution cw doms s \<longleftrightarrow> assignment_complete doms s \<and> drawn_from doms s \<and> satisfies cw s"

text \<open>\<open>consistent\<close> returns True exactly on the assignments that satisfy the three invariants.\<close>

lemma consistent_with_True_iff:
  "consistent_with cw v1 w1 a = Inr True \<longleftrightarrow>
     (\<forall>(v2, w2) \<in> set a. v1 \<noteq> v2 \<longrightarrow> w1 \<noteq> w2 \<and>
        (case overlaps cw (v1, v2) of
           None \<Rightarrow> True
         | Some (ix, iy) \<Rightarrow> ix < length w1 \<and> iy < length w2 \<and> w1 ! ix = w2 ! iy))"
proof (induction a)
  case Nil
  show ?case by simp
next
  case (Cons e a)
  obtain v2 w2 where e: "e = (v2, w2)" by (cases e)
  show ?case
  proof (cases "v1 = v2")
    case True
    with e Cons.IH show ?thesis by simp
  next
    case ne: False
    show ?thesis
    proof (cases "w1 = w2")
      case True
      with e ne show ?thesis by simp
    next
      case nw: False
      show ?thesis
      proof (cases "overlaps cw (v1, v2)")
        case None
        with e ne nw Cons.IH show ?thesis by simp
      next
        case (Some ov)
        obtain ix iy where ov: "ov = (ix, iy)" by (cases ov)
        show ?thesis
        proof (cases "ix < length w1 \<and> iy < length w2 \<and> w1 ! ix = w2 ! iy")
          case True
          with e ne nw Some ov Cons.IH show ?thesis by (simp add: char_at_def)
        next
          case False
          with e ne nw Some ov show ?thesis by (auto simp: char_at_def)
        qed
      qed
    qed
  qed
qed

lemma consistent_from_True_iff:
  "consistent_from cw es a = Inr True \<longleftrightarrow>
     (\<forall>(v1, w1) \<in> set es. length w1 = var_length v1 \<and> consistent_with cw v1 w1 a = Inr True)"
proof (induction es)
  case Nil
  show ?case by simp
next
  case (Cons e es)
  obtain v1 w1 where e: "e = (v1, w1)" by (cases e)
  show ?case
  proof (cases "length w1 = var_length v1")
    case False
    with e show ?thesis by simp
  next
    case len: True
    show ?thesis
    proof (cases "consistent_with cw v1 w1 a")
      case (Inl x)
      with e len show ?thesis by simp
    next
      case (Inr ok)
      with e len Cons.IH show ?thesis by (cases ok) simp_all
    qed
  qed
qed

lemma consistent_iff_satisfies: "consistent cw a = Inr True \<longleftrightarrow> satisfies cw a"
  unfolding consistent_def consistent_from_True_iff consistent_with_True_iff satisfies_def
    length_invariant_def distinctness_invariant_def overlap_invariant_def
  by (simp only: case_prod_unfold) blast

lemma satisfies_subset: "satisfies cw s \<Longrightarrow> set a \<subseteq> set s \<Longrightarrow> satisfies cw a"
  unfolding satisfies_def length_invariant_def distinctness_invariant_def overlap_invariant_def
  by (simp only: case_prod_unfold) blast

section \<open>Sorting, selection and value ordering\<close>

lemma keyed_map_snd: "keyed f xs = Inr ks \<Longrightarrow> map snd ks = xs"
  by (induction xs arbitrary: ks) (auto split: sum.splits)

lemma py_sorted_set: "py_sorted f xs = Inr ys \<Longrightarrow> set ys = set xs"
proof -
  assume "py_sorted f xs = Inr ys"
  then obtain ks where ks: "keyed f xs = Inr ks" and ys: "ys = map snd (sort_key fst ks)"
    by (auto simp: py_sorted_def split: sum.splits)
  have "set ys = snd ` set ks" using ys by simp
  also have "\<dots> = set (map snd ks)" by simp
  finally show ?thesis using keyed_map_snd [OF ks] by simp
qed

lemma keyed_total:
  "(\<And>x. x \<in> set xs \<Longrightarrow> \<exists>k. f x = Inr k) \<Longrightarrow> \<exists>ks. keyed f xs = Inr ks"
proof (induction xs)
  case Nil
  show ?case by simp
next
  case (Cons x xs)
  then obtain k where "f x = Inr k" by auto
  moreover from Cons obtain ks where "keyed f xs = Inr ks" by auto
  ultimately show ?case by simp
qed

lemma py_sorted_total:
  "(\<And>x. x \<in> set xs \<Longrightarrow> \<exists>k. f x = Inr k) \<Longrightarrow> \<exists>ys. py_sorted f xs = Inr ys"
  using keyed_total [of xs f] by (auto simp: py_sorted_def)

lemma lookup_key: "lookup d k = Inr v \<Longrightarrow> (k, v) \<in> set d"
  by (auto simp: lookup_def split: option.splits dest: map_of_SomeD)

lemma lookup_total: "k \<in> set (map fst d) \<Longrightarrow> \<exists>v. lookup d k = Inr v"
  by (cases "map_of d k") (auto simp: lookup_def map_of_eq_None_iff)

text \<open>The variable selected is a key of the store that the assignment does not bind.\<close>

lemma select_unassigned:
  assumes so: "\<forall>xs. set (so xs) = set xs"
    and sel: "select_unassigned_variable so cw doms a = Inr var"
  shows "var \<in> set (map fst doms)" and "var \<notin> set (map fst a)"
proof -
  let ?un = "so (filter (\<lambda>v. v \<notin> set (map fst a)) (map fst doms))"
  from sel obtain rest where "py_sorted (select_key cw doms) ?un = Inr (var # rest)"
    by (auto simp: select_unassigned_variable_def Let_def split: sum.splits list.splits)
  then have "set (var # rest) = set ?un" by (rule py_sorted_set)
  then have "var \<in> set ?un" by auto
  with so have "var \<in> set (filter (\<lambda>v. v \<notin> set (map fst a)) (map fst doms))" by simp
  then show "var \<in> set (map fst doms)" and "var \<notin> set (map fst a)" by auto
qed

lemma select_total:
  assumes so: "\<forall>xs. set (so xs) = set xs"
    and nc: "\<not> assignment_complete doms a"
  shows "\<exists>var. select_unassigned_variable so cw doms a = Inr var"
proof -
  define un where "un = so (filter (\<lambda>v. v \<notin> set (map fst a)) (map fst doms))"
  have un: "set un = set (filter (\<lambda>v. v \<notin> set (map fst a)) (map fst doms))"
    unfolding un_def using so by blast
  have "\<exists>k. select_key cw doms v = Inr k" if "v \<in> set un" for v
  proof -
    from that un have "v \<in> set (map fst doms)" by simp
    then obtain ws where "lookup doms v = Inr ws" using lookup_total [of v doms] by blast
    then show ?thesis by (simp add: select_key_def)
  qed
  then have "\<exists>ys. py_sorted (select_key cw doms) un = Inr ys"
    by (rule py_sorted_total)
  then obtain ys where ys: "py_sorted (select_key cw doms) un = Inr ys" ..
  from nc obtain v where "v \<in> set (map fst doms)" "v \<notin> set (map fst a)"
    unfolding assignment_complete_def list_all_iff by blast
  with un have "v \<in> set un" by simp
  with py_sorted_set [OF ys] have "ys \<noteq> []" by auto
  then obtain v' rest where "ys = v' # rest" by (cases ys) auto
  with ys have "select_unassigned_variable so cw doms a = Inr v'"
    unfolding select_unassigned_variable_def Let_def un_def [symmetric] by simp
  then show ?thesis ..
qed

text \<open>The values tried are the words of the variable's domain, in some order.\<close>

lemma order_domain_values_set:
  assumes "order_domain_values so cw doms var a = Inr vals"
  shows "\<exists>ws. lookup doms var = Inr ws \<and> set vals = set ws"
  using assms
  by (auto simp: order_domain_values_def Let_def split: sum.splits dest: py_sorted_set)

section \<open>Rollback and soundness of the search\<close>

lemma delete_update_fresh:
  "var \<notin> set (map fst a) \<Longrightarrow> AList.delete var (AList.update var val a) = a"
  by (simp add: delete_update_same)

text \<open>A failing call leaves the assignment as it found it.\<close>

lemma rollback:
  assumes so: "\<forall>xs. set (so xs) = set xs"
  shows "backtrack so cw doms fuel a = Inr (None, a') \<Longrightarrow> a' = a"
    and "var \<notin> set (map fst a) \<Longrightarrow>
         try_values so cw doms fuel var vals a = Inr (None, a') \<Longrightarrow> a' = a"
proof (induction fuel a and fuel var vals a arbitrary: a' and a'
    rule: backtrack_rounds [where so = so and cw = cw and doms = doms])
  case (no_fuel a)
  then show ?case by (simp add: backtrack.simps)
next
  case (frame fuel a)
  show ?case
  proof (cases rule: backtrack_Suc_cases [of doms a so cw fuel])
    case complete
    with frame.prems show ?thesis by simp
  next
    case (no_variable e)
    with frame.prems show ?thesis by simp
  next
    case (no_values var e)
    with frame.prems show ?thesis by simp
  next
    case (search var vals)
    from select_unassigned(2) [OF so search(2)] have "var \<notin> set (map fst a)" .
    with frame.IH [OF search(1-3)] frame.prems search(4) show ?thesis by simp
  qed
next
  case (no_value fuel var a)
  then show ?case by (simp add: try_values.simps)
next
  case (try_value fuel var val rest a)
  note fresh = \<open>var \<notin> set (map fst a)\<close>
  show ?case
  proof (cases rule: try_values_Cons_cases [of cw var val a so doms fuel rest])
    case (raised e)
    with try_value.prems show ?thesis by simp
  next
    case inconsistent
    with try_value.IH(3) [of a'] try_value.prems fresh show ?thesis
      by (simp add: delete_update_fresh)
  next
    case (deeper_raised e)
    with try_value.prems show ?thesis by simp
  next
    case (found r a2)
    with try_value.prems show ?thesis by simp
  next
    case (failed a2)
    from try_value.IH(1) [OF failed(1) failed(2)] have "a2 = AList.update var val a" .
    with try_value.IH(2) [OF failed(1) failed(2), of a'] try_value.prems failed(3) fresh
    show ?thesis by (simp add: delete_update_fresh)
  qed
qed

lemma set_update_subset: "set (AList.update k v al) \<subseteq> insert (k, v) (set al)"
  by (induction al) auto

text \<open>
  A successful call returns the assignment it leaves behind; that assignment is complete,
  it is the one passed in or one that \<open>consistent\<close> accepted, and each of its bindings
  was passed in or binds a variable to a word of its domain.
\<close>

lemma search_sound:
  assumes so: "\<forall>xs. set (so xs) = set xs"
  shows "backtrack so cw doms fuel a = Inr (Some r, a') \<Longrightarrow>
      a' = r \<and> assignment_complete doms r \<and> (r = a \<or> consistent cw r = Inr True)
      \<and> (\<forall>e \<in> set r. e \<in> set a \<or> (\<exists>ws. lookup doms (fst e) = Inr ws \<and> snd e \<in> set ws))"
    and "try_values so cw doms fuel var vals a = Inr (Some r, a') \<Longrightarrow>
      (\<exists>ws. lookup doms var = Inr ws \<and> set vals \<subseteq> set ws) \<Longrightarrow>
      a' = r \<and> assignment_complete doms r \<and> consistent cw r = Inr True
      \<and> (\<forall>e \<in> set r. e \<in> set a \<or> (\<exists>ws. lookup doms (fst e) = Inr ws \<and> snd e \<in> set ws))"
proof (induction fuel a and fuel var vals a arbitrary: r a' and r a'
    rule: backtrack_rounds [where so = so and cw = cw and doms = doms])
  case (no_fuel a)
  then show ?case by (simp add: backtrack.simps)
next
  case (frame fuel a)
  show ?case
  proof (cases rule: backtrack_Suc_cases [of doms a so cw fuel])
    case complete
    with frame.prems show ?thesis by auto
  next
    case (no_variable e)
    with frame.prems show ?thesis by simp
  next
    case (no_values var e)
    with frame.prems show ?thesis by simp
  next
    case (search var vals)
    from order_domain_values_set [OF search(3)]
    have "\<exists>ws. lookup doms var = Inr ws \<and> set vals \<subseteq> set ws" by auto
    with frame.IH [OF search(1-3), of r a'] frame.prems search(4) show ?thesis by simp
  qed
next
  case (no_value fuel var a)
  then show ?case by (simp add: try_values.simps)
next
  case (try_value fuel var val rest a)
  from try_value.prems(2) obtain ws where ws: "lookup doms var = Inr ws" "val \<in> set ws"
    "set rest \<subseteq> set ws" by auto
  let ?a1 = "AList.update var val a"
  have a1: "\<And>e. e \<in> set ?a1 \<Longrightarrow>
      e \<in> set a \<or> (\<exists>ws. lookup doms (fst e) = Inr ws \<and> snd e \<in> set ws)"
    using set_update_subset [of var val a] ws by auto
  have del: "\<And>b e. e \<in> set (AList.delete var b) \<Longrightarrow> e \<in> set b"
    by (auto simp: AList.delete_eq)
  show ?case
  proof (cases rule: try_values_Cons_cases [of cw var val a so doms fuel rest])
    case (raised e)
    with try_value.prems show ?thesis by simp
  next
    case inconsistent
    from try_value.IH(3) [OF inconsistent(1), of r a'] try_value.prems(1) inconsistent(2) ws
    have "a' = r \<and> assignment_complete doms r \<and> consistent cw r = Inr True
      \<and> (\<forall>e \<in> set r. e \<in> set (AList.delete var ?a1)
            \<or> (\<exists>ws. lookup doms (fst e) = Inr ws \<and> snd e \<in> set ws))" by auto
    then show ?thesis using a1 del by blast
  next
    case (deeper_raised e)
    with try_value.prems show ?thesis by simp
  next
    case (found r' a2)
    with try_value.prems(1) have eq: "r' = r" "a2 = a'" by simp_all
    from try_value.IH(1) [OF found(1), of r a'] found(2) eq
    have "a' = r \<and> assignment_complete doms r \<and> (r = ?a1 \<or> consistent cw r = Inr True)
      \<and> (\<forall>e \<in> set r. e \<in> set ?a1 \<or> (\<exists>ws. lookup doms (fst e) = Inr ws \<and> snd e \<in> set ws))"
      by simp
    then show ?thesis using a1 found(1) by blast
  next
    case (failed a2)
    from try_value.IH(2) [OF failed(1) failed(2), of r a'] try_value.prems(1) failed(3) ws
    have *: "a' = r \<and> assignment_complete doms r \<and> consistent cw r = Inr True
      \<and> (\<forall>e \<in> set r. e \<in> set (AList.delete var a2)
            \<or> (\<exists>ws. lookup doms (fst e) = Inr ws \<and> snd e \<in> set ws))" by auto
    from rollback(1) [OF so failed(2)] have "a2 = ?a1" .
    with * show ?thesis using a1 del by blast
  qed
qed

section \<open>Example grids\<close>

text \<open>
  The geometry of the scenarios in section 8 of the spec: an ACROSS slot and a DOWN slot
  that share their first cell.
\<close>

definition across3 :: variable where
  "across3 = \<lparr>var_i = 0, var_j = 0, var_direction = ACROSS, var_length = 3\<rparr>"

definition down3 :: variable where
  "down3 = \<lparr>var_i = 0, var_j = 0, var_direction = DOWN, var_length = 3\<rparr>"

definition down4 :: variable where
  "down4 = \<lparr>var_i = 0, var_j = 0, var_direction = DOWN, var_length = 4\<rparr>"

definition corner :: "variable \<Rightarrow> variable \<Rightarrow> variable \<times> variable \<Rightarrow> (nat \<times> nat) option" where
  "corner u v p = (if p = (u, v) \<or> p = (v, u) then Some (0, 0) else None)"

definition grid33 :: "word list \<Rightarrow> crossword" where
  "grid33 ws = \<lparr>words = ws, variables = [across3, down3], overlaps = corner across3 down3\<rparr>"

definition grid34 :: "word list \<Rightarrow> crossword" where
  "grid34 ws = \<lparr>words = ws, variables = [across3, down4], overlaps = corner across3 down4\<rparr>"

lemmas example_defs =
  across3_def down3_def down4_def corner_def grid33_def grid34_def
  init_domains_def enforce_node_consistency_def

section \<open>Domains only shrink\<close>

text \<open>
  \<open>shrunk before after\<close>: the two stores have the same keys in the same order, and the
  domain of every key in \<open>after\<close> has only words of its domain in \<open>before\<close>, and no
  more of them.
\<close>

definition shrunk :: "domains \<Rightarrow> domains \<Rightarrow> bool" where
  "shrunk before after \<longleftrightarrow>
     list_all2 (\<lambda>(v, ws) (v', ws'). v' = v \<and> set ws' \<subseteq> set ws \<and> length ws' \<le> length ws)
       before after"

lemma shrunk_refl: "shrunk doms doms"
  by (simp add: shrunk_def list_all2_refl case_prod_unfold)

lemma shrunk_trans:
  assumes "shrunk a b" and "shrunk b c"
  shows "shrunk a c"
  unfolding shrunk_def
  by (rule list_all2_trans [OF _ assms(1) [unfolded shrunk_def] assms(2) [unfolded shrunk_def]])
    auto

lemma shrunk_update:
  "map_of doms x = Some dx \<Longrightarrow> shrunk doms (AList.update x (filter P dx) doms)"
  by (induction doms) (auto simp: shrunk_def list_all2_refl case_prod_unfold)

lemma shrunk_enforce: "shrunk doms (enforce_node_consistency doms)"
  by (induction doms) (auto simp: shrunk_def enforce_node_consistency_def)

lemma revise_Inl_same: "revise cw x y doms = (Inl e, doms') \<Longrightarrow> doms' = doms"
  by (auto simp: revise_def split: option.splits sum.splits)

lemma shrunk_revise: "shrunk doms (snd (revise cw x y doms))"
proof (cases "revise cw x y doms")
  case (Pair r doms')
  show ?thesis
  proof (cases r)
    case (Inl e)
    with Pair show ?thesis by (auto dest: revise_Inl_same simp: shrunk_refl)
  next
    case (Inr changed)
    with Pair have "revise cw x y doms = (Inr changed, doms')" by simp
    then show ?thesis
      by (cases rule: revise_Inr_cases) (auto simp: Pair shrunk_refl shrunk_update)
  qed
qed

text \<open>
  One round of the loop of \<open>ac3\<close>, as a case analysis: the loop stops (empty work list,
  exception, or emptied domain) or goes on with a store that \<open>revise\<close> returned.
\<close>

lemma ac3_loop_cases:
  obtains (empty) "arcs = []" "ac3_loop so cw arcs doms = (Inr True, doms)"
  | (raised) x y e doms' where "arcs \<noteq> []" "last arcs = (x, y)"
      "revise cw x y doms = (Inl e, doms')" "ac3_loop so cw arcs doms = (Inl e, doms')"
  | (emptied) x y doms' where "arcs \<noteq> []" "last arcs = (x, y)"
      "revise cw x y doms = (Inr True, doms')" "lookup doms' x = Inr []"
      "ac3_loop so cw arcs doms = (Inr False, doms')"
  | (missing) x y e doms' where "arcs \<noteq> []" "last arcs = (x, y)"
      "revise cw x y doms = (Inr True, doms')" "lookup doms' x = Inl e"
      "ac3_loop so cw arcs doms = (Inl e, doms')"
  | (changed) x y doms' dx where "arcs \<noteq> []" "last arcs = (x, y)"
      "revise cw x y doms = (Inr True, doms')" "lookup doms' x = Inr dx" "dx \<noteq> []"
      "ac3_loop so cw arcs doms =
         ac3_loop so cw (butlast arcs @ map (\<lambda>z. (z, x)) (so (removeAll y (neighbors cw x)))) doms'"
  | (unchanged) x y where "arcs \<noteq> []" "last arcs = (x, y)"
      "revise cw x y doms = (Inr False, doms)"
      "ac3_loop so cw arcs doms = ac3_loop so cw (butlast arcs) doms"
proof (cases "arcs = []")
  case True
  then show ?thesis by (intro empty) (simp_all add: ac3_loop.simps)
next
  case ne: False
  obtain x y where xy: "last arcs = (x, y)" by (cases "last arcs")
  obtain r doms' where rv: "revise cw x y doms = (r, doms')" by (cases "revise cw x y doms")
  show ?thesis
  proof (cases r)
    case (Inl e)
    with ne xy rv show ?thesis
      by (intro raised [of x y e doms']) (simp_all add: ac3_loop.simps [of so cw arcs doms])
  next
    case (Inr ch)
    show ?thesis
    proof (cases ch)
      case False
      with rv Inr have "revise cw x y doms = (Inr False, doms')" by simp
      then have same: "doms' = doms" by (rule revise_unchanged_same)
      with ne xy rv Inr False show ?thesis
        by (intro unchanged [of x y]) (simp_all add: ac3_loop.simps [of so cw arcs doms])
    next
      case True
      show ?thesis
      proof (cases "lookup doms' x")
        case (Inl e)
        with ne xy rv Inr True show ?thesis
          by (intro missing [of x y doms' e]) (simp_all add: ac3_loop.simps [of so cw arcs doms])
      next
        case dx: (Inr dx)
        show ?thesis
        proof (cases "dx = []")
          case True
          with ne xy rv Inr \<open>ch\<close> dx show ?thesis
            by (intro emptied [of x y doms']) (simp_all add: ac3_loop.simps [of so cw arcs doms])
        next
          case False
          with ne xy rv Inr \<open>ch\<close> dx show ?thesis
            by (intro changed [of x y doms' dx])
              (simp_all add: ac3_loop.simps [of so cw arcs doms])
        qed
      qed
    qed
  qed
qed

text \<open>The induction that goes with it, over the rounds of the loop.\<close>

lemma ac3_loop_rounds [case_names round]:
  assumes "\<And>arcs doms.
      (\<And>x y doms' dx. arcs \<noteq> [] \<Longrightarrow> last arcs = (x, y) \<Longrightarrow>
          revise cw x y doms = (Inr True, doms') \<Longrightarrow> lookup doms' x = Inr dx \<Longrightarrow> dx \<noteq> [] \<Longrightarrow>
          P (butlast arcs @ map (\<lambda>z. (z, x)) (so (removeAll y (neighbors cw x)))) doms') \<Longrightarrow>
      (\<And>x y. arcs \<noteq> [] \<Longrightarrow> last arcs = (x, y) \<Longrightarrow>
          revise cw x y doms = (Inr False, doms) \<Longrightarrow> P (butlast arcs) doms) \<Longrightarrow>
      P arcs doms"
  shows "P arcs doms"
proof -
  have "so' = so \<Longrightarrow> cw' = cw \<Longrightarrow> P arcs doms" for so' cw'
  proof (induction so' cw' arcs doms rule: ac3_loop.induct)
    case (1 so' cw' arcs doms)
    note eq = \<open>so' = so\<close> \<open>cw' = cw\<close>
    show ?case
    proof (rule assms)
      fix x y doms' dx
      assume "arcs \<noteq> []" "last arcs = (x, y)" "revise cw x y doms = (Inr True, doms')"
        "lookup doms' x = Inr dx" "dx \<noteq> []"
      then show "P (butlast arcs @ map (\<lambda>z. (z, x)) (so (removeAll y (neighbors cw x)))) doms'"
        using "1.IH"(1) [of x y "Inr True" doms' True dx] eq by simp
    next
      fix x y
      assume "arcs \<noteq> []" "last arcs = (x, y)" "revise cw x y doms = (Inr False, doms)"
      then show "P (butlast arcs) doms"
        using "1.IH"(2) [of x y "Inr False" doms False] eq by simp
    qed
  qed
  then show ?thesis by simp
qed

lemma shrunk_ac3_loop: "shrunk doms (snd (ac3_loop so cw arcs doms))"
proof (induction arcs doms rule: ac3_loop_rounds [where so = so and cw = cw])
  case (round arcs doms)
  show ?case
  proof (cases rule: ac3_loop_cases [of arcs so cw doms])
    case empty
    then show ?thesis by (simp add: shrunk_refl)
  next
    case (raised x y e doms')
    then show ?thesis using shrunk_revise [of doms cw x y] by simp
  next
    case (emptied x y doms')
    then show ?thesis using shrunk_revise [of doms cw x y] by simp
  next
    case (missing x y e doms')
    then show ?thesis using shrunk_revise [of doms cw x y] by simp
  next
    case (changed x y doms' dx)
    have "shrunk doms doms'" using shrunk_revise [of doms cw x y] changed by simp
    moreover have "shrunk doms' (snd (ac3_loop so cw
        (butlast arcs @ map (\<lambda>z. (z, x)) (so (removeAll y (neighbors cw x)))) doms'))"
      using changed by (intro round.IH(1))
    ultimately show ?thesis using changed(6) by (auto intro: shrunk_trans)
  next
    case (unchanged x y)
    then show ?thesis using round.IH(2) by simp
  qed
qed

section \<open>Claims about node consistency, revision and arc consistency\<close>

text \<open>
  C9. \<^verbatim>\<open>enforce_node_consistency\<close> is idempotent: for every domain store, filtering by
  length twice gives the same store as filtering once.
\<close>

theorem enforce_node_consistency_idempotent:
  "enforce_node_consistency (enforce_node_consistency doms) = enforce_node_consistency doms"
  by (induction doms) (auto simp: enforce_node_consistency_def)

text \<open>
  C8. Domains only shrink before the search: after \<^verbatim>\<open>enforce_node_consistency\<close>, after
  every single call of \<^verbatim>\<open>revise\<close> (whether it returns or raises), after the whole of
  \<^verbatim>\<open>ac3\<close>, and so after the two together starting from the initial store, every
  variable's domain has only words it had before, and not more of them.
\<close>

theorem domains_only_shrink:
  "shrunk doms (enforce_node_consistency doms)
   \<and> shrunk doms (snd (revise cw x y doms))
   \<and> shrunk doms (snd (ac3_loop so cw arcs doms))
   \<and> shrunk doms (snd (ac3 so cw doms))
   \<and> shrunk (init_domains cw) (snd (ac3 so cw (enforce_node_consistency (init_domains cw))))"
proof -
  have "shrunk (init_domains cw) (snd (ac3 so cw (enforce_node_consistency (init_domains cw))))"
    unfolding ac3_def by (rule shrunk_trans [OF shrunk_enforce shrunk_ac3_loop])
  then show ?thesis
    by (simp add: shrunk_enforce shrunk_revise shrunk_ac3_loop ac3_def)
qed

lemma filter_same_length: "length (filter P xs) = length xs \<longleftrightarrow> filter P xs = xs"
proof
  assume "length (filter P xs) = length xs"
  then show "filter P xs = xs" by (metis length_filter_less filter_True less_irrefl)
qed simp

lemma has_partner_in_range:
  assumes "fst ov < length w" and "\<forall>w2 \<in> set ys. snd ov < length w2"
  shows "has_partner ov w ys = Inr (\<exists>w2 \<in> set ys. w ! fst ov = w2 ! snd ov)"
  using assms by (induction ys) (auto simp: char_at_def)

lemma keep_words_in_range:
  assumes "\<forall>w \<in> set xs. fst ov < length w" and "\<forall>w2 \<in> set ys. snd ov < length w2"
  shows "keep_words ov xs (Inr ys) = Inr (filter (\<lambda>w. \<exists>w2 \<in> set ys. w ! fst ov = w2 ! snd ov) xs)"
  using assms by (induction xs) (auto simp: has_partner_in_range)

text \<open>
  C6. \<^verbatim>\<open>revise(x, y)\<close>. Without an overlap between \<open>x\<close> and \<open>y\<close> the call changes
  nothing and returns False. With an overlap \<open>(ix, iy)\<close>, where \<open>x\<close> and \<open>y\<close> are keys
  of the store and the words of their domains reach the offsets \<open>ix\<close> and \<open>iy\<close>, the call
  leaves in the domain of \<open>x\<close> exactly the words \<open>w\<close> for which some word \<open>w2\<close> of the
  domain of \<open>y\<close> has \<open>w[ix] = w2[iy]\<close>, changes no other entry of the store, and returns
  True iff the domain of \<open>x\<close> changed.
\<close>

theorem revise_contract:
  "(overlaps cw (x, y) = None \<longrightarrow> revise cw x y doms = (Inr False, doms))
   \<and> (\<forall>ix iy dx dy.
        overlaps cw (x, y) = Some (ix, iy) \<and> lookup doms x = Inr dx \<and> lookup doms y = Inr dy
        \<and> (\<forall>w \<in> set dx. ix < length w) \<and> (\<forall>w2 \<in> set dy. iy < length w2)
        \<longrightarrow> revise cw x y doms =
              (Inr (filter (\<lambda>w. \<exists>w2 \<in> set dy. w ! ix = w2 ! iy) dx \<noteq> dx),
               AList.update x (filter (\<lambda>w. \<exists>w2 \<in> set dy. w ! ix = w2 ! iy) dx) doms))"
proof (intro conjI allI impI)
  assume "overlaps cw (x, y) = None"
  then show "revise cw x y doms = (Inr False, doms)" by (simp add: revise_def)
next
  fix ix iy dx dy
  assume a: "overlaps cw (x, y) = Some (ix, iy) \<and> lookup doms x = Inr dx \<and> lookup doms y = Inr dy
        \<and> (\<forall>w \<in> set dx. ix < length w) \<and> (\<forall>w2 \<in> set dy. iy < length w2)"
  let ?keep = "filter (\<lambda>w. \<exists>w2 \<in> set dy. w ! ix = w2 ! iy) dx"
  from a have kw: "keep_words (ix, iy) dx (Inr dy) = Inr ?keep"
    using keep_words_in_range [of dx "(ix, iy)" dy] by simp
  have "(length ?keep \<noteq> length dx) = (?keep \<noteq> dx)"
    by (simp only: filter_same_length)
  with a kw show "revise cw x y doms = (Inr (?keep \<noteq> dx), AList.update x ?keep doms)"
    by (simp add: revise_def)
qed

theorem revise_contract_witness:
  "revise (grid33 []) across3 down3 [(across3, [''CAT'', ''DOG'']), (down3, [''COW''])]
     = (Inr True, [(across3, [''CAT'']), (down3, [''COW''])])
   \<and> revise (grid33 []) across3 across3 [(across3, [''CAT'', ''DOG'']), (down3, [''COW''])]
     = (Inr False, [(across3, [''CAT'', ''DOG'']), (down3, [''COW''])])"
proof -
  let ?doms = "[(across3, [''CAT'', ''DOG'']), (down3, [''COW''])]"
  have h1: "overlaps (grid33 []) (across3, down3) = Some (0, 0)
      \<and> lookup ?doms across3 = Inr [''CAT'', ''DOG''] \<and> lookup ?doms down3 = Inr [''COW'']
      \<and> (\<forall>w \<in> set [''CAT'', ''DOG'']. 0 < length w) \<and> (\<forall>w2 \<in> set [''COW'']. 0 < length w2)"
    by (simp add: example_defs lookup_def)
  have h2: "overlaps (grid33 []) (across3, across3) = None"
    by (simp add: example_defs)
  from revise_contract [of "grid33 []" across3 down3 ?doms] h1
  have "revise (grid33 []) across3 down3 ?doms =
      (Inr (filter (\<lambda>w. \<exists>w2 \<in> set [''COW'']. w ! 0 = w2 ! 0) [''CAT'', ''DOG'']
              \<noteq> [''CAT'', ''DOG'']),
       AList.update across3
         (filter (\<lambda>w. \<exists>w2 \<in> set [''COW'']. w ! 0 = w2 ! 0) [''CAT'', ''DOG'']) ?doms)"
    by blast
  moreover from revise_contract [of "grid33 []" across3 across3 ?doms] h2
  have "revise (grid33 []) across3 across3 ?doms = (Inr False, ?doms)" by blast
  ultimately show ?thesis by simp
qed

lemma empty_vocabulary_ac3:
  "ac3 (\<lambda>xs. xs) (grid33 []) (enforce_node_consistency (init_domains (grid33 [])))
     = (Inr True, [(across3, []), (down3, [])])"
  by (simp add: ac3_def initial_arcs_def neighbors_def example_defs ac3_loop.simps
      revise_def lookup_def)

lemma empty_vocabulary_revise_1:
  "revise (grid33 []) down3 across3 [(across3, []), (down3, [])]
     = (Inr False, [(across3, []), (down3, [])])"
  by (simp add: example_defs revise_def lookup_def)

lemma empty_vocabulary_revise_2:
  "revise (grid33 []) across3 down3 [(across3, []), (down3, [])]
     = (Inr False, [(across3, []), (down3, [])])"
  by (simp add: example_defs revise_def lookup_def)

text \<open>
  C10. \<^verbatim>\<open>ac3\<close> returning True does not mean that every domain has a word. On the
  two crossing slots with an empty vocabulary every domain is empty before the call; both
  arcs are revised, neither revision removes a word (each returns False), so the branch
  that reports failure is never reached, and \<^verbatim>\<open>ac3\<close> returns True with both domains
  still empty.
\<close>

theorem ac3_true_with_empty_domains:
  "initial_arcs (\<lambda>xs. xs) (grid33 []) (enforce_node_consistency (init_domains (grid33 [])))
     = [(across3, down3), (down3, across3)]
   \<and> revise (grid33 []) down3 across3 [(across3, []), (down3, [])]
       = (Inr False, [(across3, []), (down3, [])])
   \<and> revise (grid33 []) across3 down3 [(across3, []), (down3, [])]
       = (Inr False, [(across3, []), (down3, [])])
   \<and> ac3 (\<lambda>xs. xs) (grid33 []) (enforce_node_consistency (init_domains (grid33 [])))
       = (Inr True, [(across3, []), (down3, [])])"
proof -
  have "initial_arcs (\<lambda>xs. xs) (grid33 []) (enforce_node_consistency (init_domains (grid33 [])))
     = [(across3, down3), (down3, across3)]"
    by (simp add: initial_arcs_def neighbors_def example_defs)
  then show ?thesis
    using empty_vocabulary_ac3 empty_vocabulary_revise_1 empty_vocabulary_revise_2
    by (intro conjI)
qed

section \<open>Claims about the search\<close>

lemma cat_dog_search_fails:
  "backtrack (\<lambda>xs. xs) (grid33 [''CAT'', ''DOG''])
     [(across3, [''CAT'', ''DOG'']), (down3, [''CAT'', ''DOG''])] 3 [(across3, ''CAT'')]
   = Inr (None, [(across3, ''CAT'')])"
  by code_simp

text \<open>
  C7. Whatever assignment \<^verbatim>\<open>backtrack\<close> is called with, if the call returns None then
  the assignment is, on return, the one that was passed in: every binding added by the
  call or by the calls nested in it has been removed again. (Sets are iterated in any
  order; the call returns, so its recursion was deep enough.)
\<close>

theorem backtrack_failure_restores:
  assumes "\<forall>xs. set (so xs) = set xs"
    and "backtrack so cw doms fuel a = Inr (None, a')"
  shows "a' = a"
  using assms by (rule rollback(1))

theorem backtrack_failure_restores_witness:
  "(\<forall>xs. set ((\<lambda>xs. xs) xs) = set (xs :: variable list))
   \<and> backtrack (\<lambda>xs. xs) (grid33 [''CAT'', ''DOG''])
        [(across3, [''CAT'', ''DOG'']), (down3, [''CAT'', ''DOG''])] 3 [(across3, ''CAT'')]
      = Inr (None, [(across3, ''CAT'')])"
proof -
  have h: "\<forall>xs. set ((\<lambda>xs. xs) xs) = set (xs :: variable list)" by simp
  from backtrack_failure_restores [OF h cat_dog_search_fails] h cat_dog_search_fails
  show ?thesis by simp
qed

lemma shrunk_keys: "shrunk a b \<Longrightarrow> map fst b = map fst a"
  unfolding shrunk_def by (induction a b rule: list_all2_induct) auto

lemma solve_domains_keys:
  "map fst (snd (ac3 so cw (enforce_node_consistency (init_domains cw)))) = variables cw"
proof -
  have "shrunk (init_domains cw) (snd (ac3 so cw (enforce_node_consistency (init_domains cw))))"
    unfolding ac3_def by (rule shrunk_trans [OF shrunk_enforce shrunk_ac3_loop])
  then show ?thesis by (simp add: shrunk_keys init_domains_def comp_def)
qed

lemma solve_Some:
  assumes "snd (solve so cw fuel) = Inr (Some r)"
  shows "\<exists>a'. backtrack so cw (snd (ac3 so cw (enforce_node_consistency (init_domains cw))))
      fuel [] = Inr (Some r, a')"
  using assms
  by (auto simp: solve_def Let_def split: prod.splits sum.splits)

lemma cat_cow_dog_solved:
  "solve (\<lambda>xs. xs) (grid33 [''CAT'', ''COW'', ''DOG'']) 3
   = ([Call_enforce_node_consistency, Call_ac3, Call_backtrack],
      Inr (Some [(across3, ''CAT''), (down3, ''COW'')]))"
  by code_simp

text \<open>
  C2. If \<^verbatim>\<open>solve\<close> returns an assignment, then it binds every variable of the graph,
  (1) every bound word has the length of its variable, (2) no two different variables
  are bound to the same word, and (3) for every two different variables with an overlap
  \<open>(ix, iy)\<close> the two bound words reach the offsets and agree there.
\<close>

theorem solve_result_invariants:
  assumes "\<forall>xs. set (so xs) = set xs"
    and "snd (solve so cw fuel) = Inr (Some r)"
  shows "(\<forall>v \<in> set (variables cw). v \<in> set (map fst r))
    \<and> length_invariant r \<and> distinctness_invariant r \<and> overlap_invariant cw r"
proof -
  let ?doms = "snd (ac3 so cw (enforce_node_consistency (init_domains cw)))"
  from solve_Some [OF assms(2)] obtain a' where
    bt: "backtrack so cw ?doms fuel [] = Inr (Some r, a')" by blast
  from search_sound(1) [OF assms(1) bt]
  have complete: "assignment_complete ?doms r" and c: "r = [] \<or> consistent cw r = Inr True"
    by simp_all
  have "consistent cw [] = Inr True" by (simp add: consistent_def)
  with c have "consistent cw r = Inr True" by blast
  then have "satisfies cw r" by (simp add: consistent_iff_satisfies)
  moreover from complete have "\<forall>v \<in> set (variables cw). v \<in> set (map fst r)"
    by (simp add: assignment_complete_def list_all_iff solve_domains_keys)
  ultimately show ?thesis by (simp add: satisfies_def)
qed

theorem solve_result_invariants_witness:
  "(\<forall>xs. set ((\<lambda>xs. xs) xs) = set (xs :: variable list))
   \<and> snd (solve (\<lambda>xs. xs) (grid33 [''CAT'', ''COW'', ''DOG'']) 3)
       = Inr (Some [(across3, ''CAT''), (down3, ''COW'')])
   \<and> set (variables (grid33 [''CAT'', ''COW'', ''DOG'']))
       \<subseteq> set (map fst [(across3, ''CAT''), (down3, ''COW'')])
   \<and> length_invariant [(across3, ''CAT''), (down3, ''COW'')]
   \<and> distinctness_invariant [(across3, ''CAT''), (down3, ''COW'')]
   \<and> overlap_invariant (grid33 [''CAT'', ''COW'', ''DOG'']) [(across3, ''CAT''), (down3, ''COW'')]"
proof -
  have h1: "\<forall>xs. set ((\<lambda>xs. xs) xs) = set (xs :: variable list)" by simp
  have h2: "snd (solve (\<lambda>xs. xs) (grid33 [''CAT'', ''COW'', ''DOG'']) 3)
       = Inr (Some [(across3, ''CAT''), (down3, ''COW'')])"
    by (simp add: cat_cow_dog_solved)
  from solve_result_invariants [OF h1 h2] h1 h2 show ?thesis by blast
qed

section \<open>Arc consistency keeps every solution\<close>

lemma has_partner_found:
  "has_partner ov w ys = Inr b \<Longrightarrow> w2 \<in> set ys \<Longrightarrow>
     char_at w (fst ov) = Inr c \<Longrightarrow> char_at w2 (snd ov) = Inr c \<Longrightarrow> b"
proof (induction ys)
  case Nil
  then show ?case by simp
next
  case (Cons y ys)
  show ?case
  proof (cases "char_at y (snd ov)")
    case (Inl e)
    with Cons.prems show ?thesis by simp
  next
    case (Inr c')
    show ?thesis
    proof (cases "c = c'")
      case True
      with Cons.prems Inr show ?thesis by simp
    next
      case False
      with Cons.prems Inr have "w2 \<in> set ys" "has_partner ov w ys = Inr b" by auto
      with Cons.IH Cons.prems show ?thesis by simp
    qed
  qed
qed

lemma keep_words_all_scanned:
  "keep_words ov xs (Inr ys) = Inr keep \<Longrightarrow> w \<in> set xs \<Longrightarrow> \<exists>b. has_partner ov w ys = Inr b"
  by (induction xs arbitrary: keep) (auto split: sum.splits)

lemma keep_words_needs_partner_domain:
  "keep_words ov xs dy = Inr keep \<Longrightarrow> xs \<noteq> [] \<Longrightarrow> \<exists>ys. dy = Inr ys"
  by (cases xs; cases dy) auto

lemma assignment_complete_iff:
  "assignment_complete doms a \<longleftrightarrow> set (map fst doms) \<subseteq> set (map fst a)"
  by (auto simp: assignment_complete_def list_all_iff)

lemma solution_entry:
  assumes "solution cw doms s" and "lookup doms x = Inr ws"
  shows "\<exists>w. (x, w) \<in> set s \<and> w \<in> set ws"
proof -
  from assms(2) have "x \<in> set (map fst doms)" by (auto dest: lookup_key intro: rev_image_eqI)
  with assms(1) have "x \<in> set (map fst s)"
    unfolding solution_def assignment_complete_iff by blast
  then obtain w where w: "(x, w) \<in> set s" by auto
  with assms(1) have "case lookup doms x of Inl e \<Rightarrow> False | Inr ws \<Rightarrow> w \<in> set ws"
    unfolding solution_def drawn_from_def by blast
  with assms(2) w show ?thesis by auto
qed

lemma lookup_update:
  "lookup (AList.update k v d) k' = (if k' = k then Inr v else lookup d k')"
  by (simp add: lookup_def update_conv')

lemma revise_keeps_solution:
  assumes ne: "x \<noteq> y" and sol: "solution cw doms s"
    and rv: "revise cw x y doms = (r, doms')"
  shows "solution cw doms' s"
proof (cases r)
  case (Inl e)
  with rv sol show ?thesis by (auto dest: revise_Inl_same)
next
  case (Inr changed)
  with rv have "revise cw x y doms = (Inr changed, doms')" by simp
  then show ?thesis
  proof (cases rule: revise_Inr_cases)
    case none
    with sol show ?thesis by simp
  next
    case (some ov dx P)
    from some(2) have dx: "lookup doms x = Inr dx" by (simp add: lookup_def)
    from solution_entry [OF sol dx] obtain wx where wx: "(x, wx) \<in> set s" "wx \<in> set dx" by blast
    then have "dx \<noteq> []" by auto
    with some(3) obtain ys where ys: "lookup doms y = Inr ys"
      using keep_words_needs_partner_domain by blast
    with some(3) have keep: "filter P dx = filter (\<lambda>w. has_partner ov w ys = Inr True) dx"
      by (auto dest: keep_words_filter)
    have kept: "w \<in> set (filter P dx)" if w: "(x, w) \<in> set s" "w \<in> set dx" for w
    proof -
      from keep_words_all_scanned [of ov dx ys "filter P dx" w] some(3) ys w(2)
      obtain b where b: "has_partner ov w ys = Inr b" by auto
      from solution_entry [OF sol ys] obtain w2 where w2: "(y, w2) \<in> set s" "w2 \<in> set ys"
        by blast
      from sol have "overlap_invariant cw s" by (simp add: solution_def satisfies_def)
      with w(1) w2(1) ne some(1)
      have "fst ov < length w \<and> snd ov < length w2 \<and> w ! fst ov = w2 ! snd ov"
        unfolding overlap_invariant_def by (cases ov) fastforce
      then have "char_at w (fst ov) = Inr (w ! fst ov)" "char_at w2 (snd ov) = Inr (w ! fst ov)"
        by (simp_all add: char_at_def)
      from has_partner_found [OF b w2(2) this] have b by simp
      with b w(2) keep show ?thesis by simp
    qed
    have keys: "map fst doms' = map fst doms"
      using some(2,5) by (auto simp: update_keys dest: map_of_SomeD intro: rev_image_eqI)
    have "drawn_from doms' s"
      unfolding drawn_from_def
    proof (intro ballI, clarify)
      fix v w
      assume vw: "(v, w) \<in> set s"
      with sol have old: "case lookup doms v of Inl e \<Rightarrow> False | Inr ws \<Rightarrow> w \<in> set ws"
        unfolding solution_def drawn_from_def by blast
      show "case lookup doms' v of Inl e \<Rightarrow> False | Inr ws \<Rightarrow> w \<in> set ws"
      proof (cases "v = x")
        case True
        with old dx have "w \<in> set dx" by simp
        with kept vw True have "w \<in> set (filter P dx)" by blast
        with True some(5) show ?thesis by (simp add: lookup_update)
      next
        case False
        with old some(5) show ?thesis by (simp add: lookup_update)
      qed
    qed
    with sol keys show ?thesis by (simp add: solution_def assignment_complete_def)
  qed
qed

lemma neighbors_differ: "z \<in> set (neighbors cw x) \<Longrightarrow> z \<noteq> x"
  by (simp add: neighbors_def)

lemma initial_arcs_differ:
  assumes "\<forall>xs. set (so xs) = set xs" and "(u, v) \<in> set (initial_arcs so cw doms)"
  shows "u \<noteq> v"
  using assms by (auto simp: initial_arcs_def dest: neighbors_differ)

lemma ac3_loop_keeps_solutions:
  assumes so: "\<forall>xs. set (so xs) = set xs"
  shows "\<forall>(u, v) \<in> set arcs. u \<noteq> v \<Longrightarrow> solution cw doms s \<Longrightarrow>
    fst (ac3_loop so cw arcs doms) \<noteq> Inr False
    \<and> solution cw (snd (ac3_loop so cw arcs doms)) s"
proof (induction arcs doms rule: ac3_loop_rounds [where so = so and cw = cw])
  case (round arcs doms)
  note arcs = round.prems(1) and sol = round.prems(2)
  have last_ne: "x \<noteq> y" if "arcs \<noteq> []" "last arcs = (x, y)" for x y
  proof -
    from that have "(x, y) \<in> set arcs" using last_in_set by metis
    with arcs show ?thesis by blast
  qed
  show ?case
  proof (cases rule: ac3_loop_cases [of arcs so cw doms])
    case empty
    with sol show ?thesis by simp
  next
    case (raised x y e doms')
    with revise_keeps_solution [OF last_ne [OF raised(1,2)] sol raised(3)]
    show ?thesis by simp
  next
    case (emptied x y doms')
    from revise_keeps_solution [OF last_ne [OF emptied(1,2)] sol emptied(3)]
    have "solution cw doms' s" .
    from solution_entry [OF this emptied(4)] show ?thesis by simp
  next
    case (missing x y e doms')
    with revise_keeps_solution [OF last_ne [OF missing(1,2)] sol missing(3)]
    show ?thesis by simp
  next
    case (changed x y doms' dx)
    from revise_keeps_solution [OF last_ne [OF changed(1,2)] sol changed(3)]
    have sol': "solution cw doms' s" .
    have "\<forall>(u, v) \<in> set (butlast arcs @ map (\<lambda>z. (z, x)) (so (removeAll y (neighbors cw x)))).
        u \<noteq> v"
      using arcs so by (auto dest: in_set_butlastD neighbors_differ)
    from round.IH(1) [OF changed(1-5) this sol'] changed(6) show ?thesis by simp
  next
    case (unchanged x y)
    have "\<forall>(u, v) \<in> set (butlast arcs). u \<noteq> v"
      using arcs by (auto dest: in_set_butlastD)
    from round.IH(2) [OF unchanged(1-3) this sol] unchanged(4) show ?thesis by simp
  qed
qed

lemma cat_dogs_ac3_fails:
  "ac3 (\<lambda>xs. xs) (grid34 [''CAT'', ''DOGS'']) [(across3, [''CAT'']), (down4, [''DOGS''])]
   = (Inr False, [(across3, [''CAT'']), (down4, [])])"
  by (simp add: ac3_def initial_arcs_def neighbors_def example_defs ac3_loop.simps
      revise_def lookup_def char_at_def)

text \<open>
  C4. If \<^verbatim>\<open>ac3\<close> returns False on a domain store, then no complete assignment drawn
  from that store (the store before propagation) satisfies the length, distinctness and
  overlap constraints.
\<close>

theorem ac3_failure_sound:
  assumes "\<forall>xs. set (so xs) = set xs"
    and "fst (ac3 so cw doms) = Inr False"
  shows "\<not> (\<exists>s. solution cw doms s)"
proof
  assume "\<exists>s. solution cw doms s"
  then obtain s where s: "solution cw doms s" ..
  have "\<forall>(u, v) \<in> set (initial_arcs so cw doms). u \<noteq> v"
    using initial_arcs_differ [OF assms(1)] by blast
  from ac3_loop_keeps_solutions [OF assms(1) this s] assms(2) show False
    by (simp add: ac3_def)
qed

theorem ac3_failure_sound_witness:
  "(\<forall>xs. set ((\<lambda>xs. xs) xs) = set (xs :: variable list))
   \<and> fst (ac3 (\<lambda>xs. xs) (grid34 [''CAT'', ''DOGS'']) [(across3, [''CAT'']), (down4, [''DOGS''])])
       = Inr False
   \<and> \<not> (\<exists>s. solution (grid34 [''CAT'', ''DOGS'']) [(across3, [''CAT'']), (down4, [''DOGS''])] s)"
proof -
  have h1: "\<forall>xs. set ((\<lambda>xs. xs) xs) = set (xs :: variable list)" by simp
  have h2: "fst (ac3 (\<lambda>xs. xs) (grid34 [''CAT'', ''DOGS''])
      [(across3, [''CAT'']), (down4, [''DOGS''])]) = Inr False"
    by (simp add: cat_dogs_ac3_fails)
  from ac3_failure_sound [OF h1 h2] h1 h2 show ?thesis by blast
qed

section \<open>The search returns\<close>

text \<open>
  What the graph collaborator guarantees (spec, sections 3 and 7): the offsets of an
  overlap lie inside the two slots, and an overlap between two slots is there in both
  directions.
\<close>

definition well_formed :: "crossword \<Rightarrow> bool" where
  "well_formed cw \<longleftrightarrow>
     (\<forall>u v. case overlaps cw (u, v) of
              None \<Rightarrow> True
            | Some (ix, iy) \<Rightarrow> ix < var_length u \<and> iy < var_length v \<and> overlaps cw (v, u) \<noteq> None)"

text \<open>What \<open>enforce_node_consistency\<close> establishes: every word has the length of its variable.\<close>

definition node_consistent :: "domains \<Rightarrow> bool" where
  "node_consistent doms \<longleftrightarrow> (\<forall>(v, ws) \<in> set doms. \<forall>w \<in> set ws. length w = var_length v)"

lemma well_formedD:
  assumes "well_formed cw" and "overlaps cw (u, v) = Some ov"
  shows "fst ov < var_length u \<and> snd ov < var_length v \<and> overlaps cw (v, u) \<noteq> None"
proof -
  obtain ix iy where ov: "ov = (ix, iy)" by (cases ov)
  from assms(1) have "case overlaps cw (u, v) of
      None \<Rightarrow> True
    | Some (ix, iy) \<Rightarrow> ix < var_length u \<and> iy < var_length v \<and> overlaps cw (v, u) \<noteq> None"
    unfolding well_formed_def by blast
  with assms(2) ov show ?thesis by simp
qed

lemma node_consistentD:
  "node_consistent doms \<Longrightarrow> lookup doms v = Inr ws \<Longrightarrow> w \<in> set ws \<Longrightarrow> length w = var_length v"
  unfolding node_consistent_def by (auto dest: lookup_key)

lemma consistent_with_total:
  assumes wf: "well_formed cw" and len: "length w1 = var_length v1" and inv: "length_invariant a"
  shows "\<exists>b. consistent_with cw v1 w1 a = Inr b"
  using inv
proof (induction a)
  case Nil
  show ?case by auto
next
  case (Cons e a)
  obtain v2 w2 where e: "e = (v2, w2)" by (cases e)
  from Cons.prems e have l2: "length w2 = var_length v2" and inv': "length_invariant a"
    by (simp_all add: length_invariant_def)
  from Cons.IH [OF inv'] obtain b where b: "consistent_with cw v1 w1 a = Inr b" ..
  show ?case
  proof (cases "overlaps cw (v1, v2)")
    case None
    with e b show ?thesis by auto
  next
    case (Some ov)
    from well_formedD [OF wf Some] len l2
    have "char_at w1 (fst ov) = Inr (w1 ! fst ov)" "char_at w2 (snd ov) = Inr (w2 ! snd ov)"
      by (simp_all add: char_at_def)
    with e b Some show ?thesis by auto
  qed
qed

lemma consistent_total:
  assumes wf: "well_formed cw" and inv: "length_invariant a"
  shows "\<exists>b. consistent cw a = Inr b"
proof -
  have "\<exists>b. consistent_from cw es a = Inr b" for es
  proof (induction es)
    case Nil
    show ?case by auto
  next
    case (Cons e es)
    obtain v1 w1 where e: "e = (v1, w1)" by (cases e)
    from Cons.IH obtain b where b: "consistent_from cw es a = Inr b" ..
    show ?case
    proof (cases "length w1 = var_length v1")
      case False
      with e show ?thesis by auto
    next
      case True
      from consistent_with_total [OF wf True inv] obtain ok where
        "consistent_with cw v1 w1 a = Inr ok" ..
      with e True b show ?thesis by auto
    qed
  qed
  then show ?thesis by (simp add: consistent_def)
qed

lemma count_words_total:
  assumes "fst ov < length word" and "\<forall>w \<in> set ws. snd ov < length w"
  shows "\<exists>n. count_words (Some ov) word ws = Inr n"
  using assms(2)
proof (induction ws)
  case Nil
  show ?case by auto
next
  case (Cons w ws)
  then obtain n where n: "count_words (Some ov) word ws = Inr n" by auto
  from Cons.prems assms(1) have "\<exists>b. rules_out (Some ov) word w = Inr b"
    by (auto simp: rules_out_def char_at_def)
  then obtain b where "rules_out (Some ov) word w = Inr b" ..
  with n show ?case by auto
qed

lemma count_removed_total:
  assumes wf: "well_formed cw" and nc: "node_consistent doms"
    and keys: "set (variables cw) \<subseteq> set (map fst doms)"
    and len: "length word = var_length var"
  shows "set nbrs \<subseteq> set (neighbors cw var) \<Longrightarrow>
    \<exists>n. count_removed_in_neighbors cw doms var word nbrs = Inr n"
proof (induction nbrs)
  case Nil
  show ?case by auto
next
  case (Cons z nbrs)
  then obtain m where m: "count_removed_in_neighbors cw doms var word nbrs = Inr m" by auto
  from Cons.prems have z: "z \<in> set (variables cw)" "overlaps cw (z, var) \<noteq> None"
    by (auto simp: neighbors_def)
  with keys obtain ws where ws: "lookup doms z = Inr ws" using lookup_total [of z doms] by blast
  from z(2) obtain ov' where ov': "overlaps cw (z, var) = Some ov'" by auto
  from well_formedD [OF wf ov'] obtain ov where ov: "overlaps cw (var, z) = Some ov" by auto
  from well_formedD [OF wf ov] len have i: "fst ov < length word" by simp
  have "\<forall>w \<in> set ws. snd ov < length w"
    using well_formedD [OF wf ov] node_consistentD [OF nc ws] by simp
  from count_words_total [OF i this] obtain n where "count_words (Some ov) word ws = Inr n" ..
  with m ws ov show ?case by auto
qed

lemma order_domain_values_total:
  assumes so: "\<forall>xs. set (so xs) = set xs"
    and wf: "well_formed cw" and nc: "node_consistent doms"
    and keys: "set (variables cw) \<subseteq> set (map fst doms)"
    and var: "var \<in> set (map fst doms)"
  shows "\<exists>vals. order_domain_values so cw doms var a = Inr vals"
proof -
  define nbrs where "nbrs = so (filter (\<lambda>v. v \<notin> set (map fst a)) (neighbors cw var))"
  have sub: "set nbrs \<subseteq> set (neighbors cw var)" unfolding nbrs_def using so by auto
  from var obtain ws where ws: "lookup doms var = Inr ws" using lookup_total [of var doms] by blast
  have "\<exists>n. count_removed_in_neighbors cw doms var word nbrs = Inr n" if "word \<in> set ws" for word
    using count_removed_total [OF wf nc keys node_consistentD [OF nc ws that] sub] .
  then have "\<exists>vals. py_sorted (\<lambda>word. count_removed_in_neighbors cw doms var word nbrs) ws
      = Inr vals"
    by (rule py_sorted_total)
  with ws show ?thesis
    unfolding order_domain_values_def Let_def nbrs_def [symmetric] by simp
qed

lemma update_keys_set: "set (map fst (AList.update k v al)) = insert k (set (map fst al))"
  by (auto simp: update_keys)

lemma unassigned_decreases:
  assumes "var \<in> set (map fst doms)" and "var \<notin> set (map fst a)"
    and "card (set (map fst doms) - set (map fst a)) \<le> n"
  shows "card (set (map fst doms) - set (map fst (AList.update var val a))) < n"
proof -
  let ?D = "set (map fst doms)" and ?A = "set (map fst a)"
  have "?D - insert var ?A = (?D - ?A) - {var}" by auto
  moreover have in_it: "var \<in> ?D - ?A" using assms by simp
  ultimately have "card (?D - insert var ?A) = card (?D - ?A) - 1" by simp
  moreover from in_it have "0 < card (?D - ?A)" by (auto simp: card_gt_0_iff)
  ultimately have "card (?D - insert var ?A) < n" using assms(3) by linarith
  then show ?thesis unfolding update_keys_set .
qed

lemma length_invariant_update:
  "length_invariant a \<Longrightarrow> length val = var_length var \<Longrightarrow>
     length_invariant (AList.update var val a)"
  unfolding length_invariant_def using set_update_subset [of var val a] by auto

text \<open>
  On a well-formed graph and a node-consistent store, started on an assignment whose words
  have the lengths of their variables and with a bound above the number of unassigned
  variables, the search returns: it raises nothing and does not use up its bound.
\<close>

lemma search_returns:
  assumes so: "\<forall>xs. set (so xs) = set xs"
    and wf: "well_formed cw" and nc: "node_consistent doms"
    and keys: "set (variables cw) \<subseteq> set (map fst doms)"
  shows "length_invariant a \<Longrightarrow> card (set (map fst doms) - set (map fst a)) < fuel \<Longrightarrow>
      \<exists>res a'. backtrack so cw doms fuel a = Inr (res, a')"
    and "length_invariant a \<Longrightarrow> var \<in> set (map fst doms) \<Longrightarrow> var \<notin> set (map fst a) \<Longrightarrow>
      (\<exists>ws. lookup doms var = Inr ws \<and> set vals \<subseteq> set ws) \<Longrightarrow>
      card (set (map fst doms) - set (map fst a)) \<le> fuel \<Longrightarrow>
      \<exists>res a'. try_values so cw doms fuel var vals a = Inr (res, a')"
proof (induction fuel a and fuel var vals a
    rule: backtrack_rounds [where so = so and cw = cw and doms = doms])
  case (no_fuel a)
  then show ?case by simp
next
  case (frame fuel a)
  show ?case
  proof (cases rule: backtrack_Suc_cases [of doms a so cw fuel])
    case complete
    then show ?thesis by simp
  next
    case (no_variable e)
    with select_total [OF so no_variable(1), of cw] show ?thesis by simp
  next
    case (no_values var e)
    from select_unassigned(1) [OF so no_values(2)]
    have "var \<in> set (map fst doms)" .
    from order_domain_values_total [OF so wf nc keys this, of a] no_values(3)
    show ?thesis by simp
  next
    case (search var vals)
    from select_unassigned [OF so search(2)]
    have v: "var \<in> set (map fst doms)" "var \<notin> set (map fst a)" .
    from order_domain_values_set [OF search(3)]
    have "\<exists>ws. lookup doms var = Inr ws \<and> set vals \<subseteq> set ws" by auto
    moreover from frame.prems(2) have "card (set (map fst doms) - set (map fst a)) \<le> fuel"
      by simp
    ultimately show ?thesis
      using frame.IH [OF search(1-3) frame.prems(1) v] search(4) by simp
  qed
next
  case (no_value fuel var a)
  show ?case by (simp add: try_values.simps)
next
  case (try_value fuel var val rest a)
  let ?a1 = "AList.update var val a"
  note inv = try_value.prems(1)
  note v = try_value.prems(2,3)
  from try_value.prems(4) obtain ws where ws: "lookup doms var = Inr ws" "val \<in> set ws"
    "set rest \<subseteq> set ws" by auto
  then have dom: "\<exists>ws. lookup doms var = Inr ws \<and> set rest \<subseteq> set ws" by blast
  from node_consistentD [OF nc ws(1,2)] have "length val = var_length var" .
  with inv have inv1: "length_invariant ?a1" by (rule length_invariant_update)
  have undo: "AList.delete var ?a1 = a" using v(2) by (rule delete_update_fresh)
  show ?case
  proof (cases rule: try_values_Cons_cases [of cw var val a so doms fuel rest])
    case (raised e)
    with consistent_total [OF wf inv1] show ?thesis by simp
  next
    case inconsistent
    from try_value.IH(3) [OF inconsistent(1)] undo inv v dom try_value.prems(5) inconsistent(2)
    show ?thesis by simp
  next
    case (deeper_raised e)
    from unassigned_decreases [OF v try_value.prems(5), of val]
    have "card (set (map fst doms) - set (map fst ?a1)) < fuel" .
    from try_value.IH(1) [OF deeper_raised(1) inv1 this] deeper_raised(2)
    show ?thesis by simp
  next
    case (found r a2)
    then show ?thesis by simp
  next
    case (failed a2)
    from rollback(1) [OF so failed(2)] have "a2 = ?a1" .
    with try_value.IH(2) [OF failed(1,2)] undo inv v dom try_value.prems(5) failed(3)
    show ?thesis by simp
  qed
qed

section \<open>The search finds a solution when there is one\<close>

lemma search_complete:
  assumes so: "\<forall>xs. set (so xs) = set xs"
    and wf: "well_formed cw" and nc: "node_consistent doms"
    and keys: "set (variables cw) \<subseteq> set (map fst doms)"
    and sol: "solution cw doms s"
  shows "set a \<subseteq> set s \<Longrightarrow> card (set (map fst doms) - set (map fst a)) < fuel \<Longrightarrow>
      \<exists>r. backtrack so cw doms fuel a = Inr (Some r, r)"
    and "set a \<subseteq> set s \<Longrightarrow> var \<in> set (map fst doms) \<Longrightarrow> var \<notin> set (map fst a) \<Longrightarrow>
      (\<exists>ws. lookup doms var = Inr ws \<and> set vals \<subseteq> set ws) \<Longrightarrow>
      (\<exists>w \<in> set vals. (var, w) \<in> set s) \<Longrightarrow>
      card (set (map fst doms) - set (map fst a)) \<le> fuel \<Longrightarrow>
      \<exists>r. try_values so cw doms fuel var vals a = Inr (Some r, r)"
proof (induction fuel a and fuel var vals a
    rule: backtrack_rounds [where so = so and cw = cw and doms = doms])
  case (no_fuel a)
  then show ?case by simp
next
  case (frame fuel a)
  from sol frame.prems(1) have inv: "length_invariant a"
    unfolding solution_def satisfies_def length_invariant_def by blast
  show ?case
  proof (cases rule: backtrack_Suc_cases [of doms a so cw fuel])
    case complete
    then show ?thesis by simp
  next
    case (no_variable e)
    with select_total [OF so no_variable(1), of cw] show ?thesis by simp
  next
    case (no_values var e)
    from select_unassigned(1) [OF so no_values(2)]
    have "var \<in> set (map fst doms)" .
    from order_domain_values_total [OF so wf nc keys this, of a] no_values(3)
    show ?thesis by simp
  next
    case (search var vals)
    from select_unassigned [OF so search(2)]
    have v: "var \<in> set (map fst doms)" "var \<notin> set (map fst a)" .
    from order_domain_values_set [OF search(3)] obtain ws where
      ws: "lookup doms var = Inr ws" "set vals = set ws" by blast
    from solution_entry [OF sol ws(1)] ws(2) have "\<exists>w \<in> set vals. (var, w) \<in> set s" by blast
    moreover from ws have "\<exists>ws. lookup doms var = Inr ws \<and> set vals \<subseteq> set ws" by auto
    moreover from frame.prems(2) have "card (set (map fst doms) - set (map fst a)) \<le> fuel"
      by simp
    ultimately show ?thesis
      using frame.IH [OF search(1-3) frame.prems(1) v] search(4) by simp
  qed
next
  case (no_value fuel var a)
  then show ?case by simp
next
  case (try_value fuel var val rest a)
  let ?a1 = "AList.update var val a"
  note sub = try_value.prems(1)
  note v = try_value.prems(2,3)
  from sol sub have inv: "length_invariant a"
    unfolding solution_def satisfies_def length_invariant_def by blast
  from try_value.prems(4) obtain ws where ws: "lookup doms var = Inr ws" "val \<in> set ws"
    "set rest \<subseteq> set ws" by auto
  then have dom: "\<exists>ws. lookup doms var = Inr ws \<and> set rest \<subseteq> set ws" by blast
  from node_consistentD [OF nc ws(1,2)] have "length val = var_length var" .
  with inv have inv1: "length_invariant ?a1" by (rule length_invariant_update)
  have undo: "AList.delete var ?a1 = a" using v(2) by (rule delete_update_fresh)
  have less: "card (set (map fst doms) - set (map fst ?a1)) < fuel"
    using unassigned_decreases [OF v try_value.prems(6), of val] .
  have in_s: "set ?a1 \<subseteq> set s" if "(var, val) \<in> set s"
    using set_update_subset [of var val a] sub that by auto
  have good: "consistent cw ?a1 = Inr True" if "(var, val) \<in> set s"
  proof -
    from sol have "satisfies cw s" by (simp add: solution_def)
    from satisfies_subset [OF this in_s [OF that]] show ?thesis
      by (simp add: consistent_iff_satisfies)
  qed
  have later: "\<exists>w \<in> set rest. (var, w) \<in> set s" if "(var, val) \<notin> set s"
    using try_value.prems(5) that by auto
  show ?case
  proof (cases rule: try_values_Cons_cases [of cw var val a so doms fuel rest])
    case (raised e)
    with consistent_total [OF wf inv1] show ?thesis by simp
  next
    case inconsistent
    with good have "(var, val) \<notin> set s" by auto
    from try_value.IH(3) [OF inconsistent(1)] undo sub v dom later [OF this]
      try_value.prems(6) inconsistent(2)
    show ?thesis by simp
  next
    case (deeper_raised e)
    from search_returns(1) [OF so wf nc keys inv1 less] deeper_raised(2)
    show ?thesis by simp
  next
    case (found r a2)
    from search_sound(1) [OF so found(2)] have "a2 = r" by simp
    with found(3) show ?thesis by simp
  next
    case (failed a2)
    have "(var, val) \<notin> set s"
    proof
      assume "(var, val) \<in> set s"
      from try_value.IH(1) [OF failed(1) in_s [OF this] less] failed(2)
      show False by simp
    qed
    note w = later [OF this]
    from rollback(1) [OF so failed(2)] have "a2 = ?a1" .
    with try_value.IH(2) [OF failed(1,2)] undo sub v dom w try_value.prems(6) failed(3)
    show ?thesis by simp
  qed
qed

lemma grid33_well_formed: "well_formed (grid33 ws)"
  by (auto simp: well_formed_def example_defs)

lemma cat_cow_dog_solution:
  "solution (grid33 [''CAT'', ''COW'', ''DOG''])
     [(across3, [''CAT'', ''COW'', ''DOG'']), (down3, [''CAT'', ''COW'', ''DOG''])]
     [(across3, ''CAT''), (down3, ''COW'')]"
  by (simp add: solution_def assignment_complete_def drawn_from_def satisfies_def
      length_invariant_def distinctness_invariant_def overlap_invariant_def lookup_def
      example_defs)

text \<open>
  C3. On a well-formed graph and a store as propagation leaves it (a domain for every
  variable, every word of the length of its variable): if some complete assignment drawn
  from the domains satisfies the length, distinctness and overlap constraints, then
  \<^verbatim>\<open>backtrack\<close>, started on the empty assignment with a bound above the number of
  variables, returns such an assignment, not None and no exception.
\<close>

theorem backtrack_complete:
  assumes "\<forall>xs. set (so xs) = set xs"
    and "well_formed cw" and "node_consistent doms"
    and "set (variables cw) \<subseteq> set (map fst doms)"
    and "\<exists>s. solution cw doms s"
    and "length doms < fuel"
  shows "\<exists>r. backtrack so cw doms fuel [] = Inr (Some r, r) \<and> solution cw doms r"
proof -
  from assms(5) obtain s where s: "solution cw doms s" ..
  have "card (set (map fst doms)) \<le> length doms"
    using card_length [of "map fst doms"] by simp
  with assms(6) have "card (set (map fst doms) - set (map fst ([] :: assignment))) < fuel"
    by simp
  from search_complete(1) [OF assms(1-4) s _ this]
  obtain r where r: "backtrack so cw doms fuel [] = Inr (Some r, r)" by auto
  from search_sound(1) [OF assms(1) r]
  have c: "assignment_complete doms r" and k: "r = [] \<or> consistent cw r = Inr True"
    and d: "\<forall>e \<in> set r. \<exists>ws. lookup doms (fst e) = Inr ws \<and> snd e \<in> set ws"
    by simp_all
  have "consistent cw [] = Inr True" by (simp add: consistent_def)
  with k have "satisfies cw r" by (auto simp: consistent_iff_satisfies)
  moreover from d have "drawn_from doms r" unfolding drawn_from_def by fastforce
  ultimately have "solution cw doms r" using c by (simp add: solution_def)
  with r show ?thesis by blast
qed

theorem backtrack_complete_witness:
  "(\<forall>xs. set ((\<lambda>xs. xs) xs) = set (xs :: variable list))
   \<and> well_formed (grid33 [''CAT'', ''COW'', ''DOG''])
   \<and> node_consistent [(across3, [''CAT'', ''COW'', ''DOG'']), (down3, [''CAT'', ''COW'', ''DOG''])]
   \<and> solution (grid33 [''CAT'', ''COW'', ''DOG''])
        [(across3, [''CAT'', ''COW'', ''DOG'']), (down3, [''CAT'', ''COW'', ''DOG''])]
        [(across3, ''CAT''), (down3, ''COW'')]
   \<and> (\<exists>r. backtrack (\<lambda>xs. xs) (grid33 [''CAT'', ''COW'', ''DOG''])
            [(across3, [''CAT'', ''COW'', ''DOG'']), (down3, [''CAT'', ''COW'', ''DOG''])] 3 []
          = Inr (Some r, r)
        \<and> solution (grid33 [''CAT'', ''COW'', ''DOG''])
            [(across3, [''CAT'', ''COW'', ''DOG'']), (down3, [''CAT'', ''COW'', ''DOG''])] r)"
proof -
  let ?cw = "grid33 [''CAT'', ''COW'', ''DOG'']"
  let ?doms = "[(across3, [''CAT'', ''COW'', ''DOG'']), (down3, [''CAT'', ''COW'', ''DOG''])]"
  have h1: "\<forall>xs. set ((\<lambda>xs. xs) xs) = set (xs :: variable list)" by simp
  have h2: "well_formed ?cw" by (rule grid33_well_formed)
  have h3: "node_consistent ?doms" by (simp add: node_consistent_def example_defs)
  have h4: "set (variables ?cw) \<subseteq> set (map fst ?doms)" by (simp add: example_defs)
  have h5: "\<exists>s. solution ?cw ?doms s" using cat_cow_dog_solution by blast
  have h6: "length ?doms < 3" by simp
  from backtrack_complete [OF h1 h2 h3 h4 h5 h6] h1 h2 h3 cat_cow_dog_solution
  show ?thesis by blast
qed

section \<open>What solve does with the answer of ac3\<close>

lemma node_consistent_enforce: "node_consistent (enforce_node_consistency doms)"
  by (auto simp: node_consistent_def enforce_node_consistency_def)

lemma shrunk_node_consistent: "shrunk a b \<Longrightarrow> node_consistent a \<Longrightarrow> node_consistent b"
  unfolding shrunk_def node_consistent_def
  by (induction a b rule: list_all2_induct) auto

lemma ac3_loop_False_emptied:
  "fst (ac3_loop so cw arcs doms) = Inr False \<Longrightarrow>
     \<exists>x. lookup (snd (ac3_loop so cw arcs doms)) x = Inr []"
proof (induction arcs doms rule: ac3_loop_rounds [where so = so and cw = cw])
  case (round arcs doms)
  show ?case
  proof (cases rule: ac3_loop_cases [of arcs so cw doms])
    case empty
    with round.prems show ?thesis by simp
  next
    case (raised x y e doms')
    with round.prems show ?thesis by simp
  next
    case (emptied x y doms')
    then show ?thesis by auto
  next
    case (missing x y e doms')
    with round.prems show ?thesis by simp
  next
    case (changed x y doms' dx)
    with round.IH(1) [OF changed(1-5)] round.prems show ?thesis by simp
  next
    case (unchanged x y)
    with round.IH(2) [OF unchanged(1-3)] round.prems show ?thesis by simp
  qed
qed

text \<open>With an empty domain in the store, the search finds nothing.\<close>

lemma search_fails_on_empty_domain:
  assumes so: "\<forall>xs. set (so xs) = set xs"
    and wf: "well_formed cw" and nc: "node_consistent doms"
    and keys: "set (variables cw) \<subseteq> set (map fst doms)"
    and empty: "lookup doms x = Inr []"
    and fuel: "length doms < fuel"
  shows "backtrack so cw doms fuel [] = Inr (None, [])"
proof -
  have "card (set (map fst doms)) \<le> length doms"
    using card_length [of "map fst doms"] by simp
  with fuel have "card (set (map fst doms) - set (map fst ([] :: assignment))) < fuel" by simp
  moreover have "length_invariant []" by (simp add: length_invariant_def)
  ultimately obtain res a' where res: "backtrack so cw doms fuel [] = Inr (res, a')"
    using search_returns(1) [OF so wf nc keys] by blast
  show ?thesis
  proof (cases res)
    case None
    with res rollback(1) [OF so] show ?thesis by auto
  next
    case (Some r)
    from search_sound(1) [OF so res [unfolded Some]]
    have c: "assignment_complete doms r"
      and d: "\<forall>e \<in> set r. \<exists>ws. lookup doms (fst e) = Inr ws \<and> snd e \<in> set ws" by simp_all
    from empty have "x \<in> set (map fst doms)" by (auto dest: lookup_key intro: rev_image_eqI)
    with c have "x \<in> set (map fst r)" unfolding assignment_complete_iff by blast
    then obtain w where "(x, w) \<in> set r" by auto
    with d empty show ?thesis by fastforce
  qed
qed

lemma cat_dogs_pipeline:
  "ac3 (\<lambda>xs. xs) (grid34 [''CAT'', ''DOGS''])
     (enforce_node_consistency (init_domains (grid34 [''CAT'', ''DOGS''])))
   = (Inr False, [(across3, [''CAT'']), (down4, [])])"
  by (simp add: ac3_def initial_arcs_def neighbors_def example_defs ac3_loop.simps
      revise_def lookup_def char_at_def)

lemma cat_dogs_solve:
  "solve (\<lambda>xs. xs) (grid34 [''CAT'', ''DOGS'']) 3
   = ([Call_enforce_node_consistency, Call_ac3, Call_backtrack], Inr None)"
  by code_simp

lemma grid34_well_formed: "well_formed (grid34 ws)"
  by (auto simp: well_formed_def example_defs)

text \<open>
  C1, as stated, fails: on the crossing slots of lengths 3 and 4 with the vocabulary
  CAT, DOGS the call of \<^verbatim>\<open>ac3\<close> returns False and \<^verbatim>\<open>solve\<close> calls
  \<^verbatim>\<open>backtrack\<close> all the same.
\<close>

theorem solve_short_circuit_counterexample:
  "fst (ac3 (\<lambda>xs. xs) (grid34 [''CAT'', ''DOGS''])
         (enforce_node_consistency (init_domains (grid34 [''CAT'', ''DOGS'']))))
     = Inr False
   \<and> Call_backtrack \<in> set (fst (solve (\<lambda>xs. xs) (grid34 [''CAT'', ''DOGS'']) 3))"
  by (simp add: cat_dogs_pipeline cat_dogs_solve)

text \<open>
  C1, amended. \<^verbatim>\<open>solve\<close> discards what \<^verbatim>\<open>ac3\<close> returns: when \<^verbatim>\<open>ac3\<close> reports
  infeasibility, \<^verbatim>\<open>solve\<close> still calls \<^verbatim>\<open>backtrack\<close>; on a well-formed graph that
  search, with a bound above the number of variables, finds no assignment, so \<^verbatim>\<open>solve\<close>
  returns the failure marker.
\<close>

theorem solve_searches_after_failed_ac3:
  assumes "\<forall>xs. set (so xs) = set xs"
    and "well_formed cw"
    and "fst (ac3 so cw (enforce_node_consistency (init_domains cw))) = Inr False"
    and "length (variables cw) < fuel"
  shows "solve so cw fuel
    = ([Call_enforce_node_consistency, Call_ac3, Call_backtrack], Inr None)"
proof -
  let ?d1 = "enforce_node_consistency (init_domains cw)"
  obtain d2 where ac: "ac3 so cw ?d1 = (Inr False, d2)"
    using assms(3) by (cases "ac3 so cw ?d1") auto
  have sh: "shrunk ?d1 d2" using shrunk_ac3_loop [of ?d1 so cw "initial_arcs so cw ?d1"] ac
    by (simp add: ac3_def)
  from shrunk_node_consistent [OF sh node_consistent_enforce] have nc: "node_consistent d2" .
  have k: "map fst d2 = variables cw"
    using solve_domains_keys [of so cw] ac by simp
  then have keys: "set (variables cw) \<subseteq> set (map fst d2)" by simp
  from k have "length d2 = length (variables cw)" by (metis length_map)
  with assms(4) have fuel: "length d2 < fuel" by simp
  from ac3_loop_False_emptied [of so cw "initial_arcs so cw ?d1" ?d1] ac
  obtain x where "lookup d2 x = Inr []" by (auto simp: ac3_def)
  from search_fails_on_empty_domain [OF assms(1,2) nc keys this fuel]
  have "backtrack so cw d2 fuel [] = Inr (None, [])" .
  with ac show ?thesis by (simp add: solve_def)
qed

theorem solve_searches_after_failed_ac3_witness:
  "(\<forall>xs. set ((\<lambda>xs. xs) xs) = set (xs :: variable list))
   \<and> well_formed (grid34 [''CAT'', ''DOGS''])
   \<and> fst (ac3 (\<lambda>xs. xs) (grid34 [''CAT'', ''DOGS''])
         (enforce_node_consistency (init_domains (grid34 [''CAT'', ''DOGS'']))))
       = Inr False
   \<and> solve (\<lambda>xs. xs) (grid34 [''CAT'', ''DOGS'']) 3
       = ([Call_enforce_node_consistency, Call_ac3, Call_backtrack], Inr None)"
proof -
  let ?cw = "grid34 [''CAT'', ''DOGS'']"
  have h1: "\<forall>xs. set ((\<lambda>xs. xs) xs) = set (xs :: variable list)" by simp
  have h2: "well_formed ?cw" by (rule grid34_well_formed)
  have h3: "fst (ac3 (\<lambda>xs. xs) ?cw (enforce_node_consistency (init_domains ?cw))) = Inr False"
    by (simp add: cat_dogs_pipeline)
  have h4: "length (variables ?cw) < 3" by (simp add: example_defs)
  from solve_searches_after_failed_ac3 [OF h1 h2 h3 h4] h1 h2 h3 show ?thesis by blast
qed

section \<open>The key that ranks the unassigned variables\<close>

lemma keyed_keys:
  "keyed f xs = Inr ks \<Longrightarrow> (k, x) \<in> set ks \<Longrightarrow> f x = Inr k \<and> x \<in> set xs"
  by (induction xs arbitrary: ks) (auto split: sum.splits)

text \<open>
  An element whose key is strictly below the key of every other element comes first in
  the sorted list, wherever it stands in the list that is sorted.
\<close>

lemma py_sorted_strict_min:
  fixes f :: "'a \<Rightarrow> error + 'k::linorder"
  assumes x: "x \<in> set xs"
    and fx: "f x = Inr k"
    and above: "\<And>y. y \<in> set xs \<Longrightarrow> y \<noteq> x \<Longrightarrow> \<exists>k'. f y = Inr k' \<and> k < k'"
  shows "\<exists>rest. py_sorted f xs = Inr (x # rest)"
proof -
  have "\<exists>k. f y = Inr k" if "y \<in> set xs" for y
    using that fx above by (cases "y = x") auto
  then obtain ks where ks: "keyed f xs = Inr ks"
    using keyed_total [of xs f] by blast
  define zs where "zs = sort_key fst ks"
  have set_zs: "set zs = set ks" and sorted_zs: "sorted (map fst zs)"
    by (simp_all add: zs_def)
  from x keyed_map_snd [OF ks] have "x \<in> snd ` set ks"
    by (metis set_map)
  then obtain k0 where k0: "(k0, x) \<in> set ks" by force
  from keyed_keys [OF ks k0] fx have "k0 = k" by simp
  with k0 set_zs have kx: "(k, x) \<in> set zs" by simp
  then obtain z rest where zs: "zs = z # rest" by (cases zs) auto
  obtain k' y where z: "z = (k', y)" by (cases z)
  from zs z set_zs have "(k', y) \<in> set ks" by auto
  from keyed_keys [OF ks this] have fy: "f y = Inr k'" and y: "y \<in> set xs" by simp_all
  from sorted_zs zs z kx have "k' \<le> k" by force
  have "y = x"
  proof (rule ccontr)
    assume "y \<noteq> x"
    from above [OF y this] fy have "k < k'" by auto
    with \<open>k' \<le> k\<close> show False by simp
  qed
  with zs z have "map snd (sort_key fst ks) = x # map snd rest"
    by (simp add: zs_def [symmetric])
  with ks show ?thesis by (simp add: py_sorted_def)
qed

subsection \<open>A wide grid\<close>

text \<open>
  A grid of 2001 columns: one ACROSS slot over the whole first row, a DOWN slot of
  length 3 hanging from every second cell of it (1001 of them), and a separate ACROSS
  slot of length 2 further down.
\<close>

definition wide_row :: variable where
  "wide_row = \<lparr>var_i = 0, var_j = 0, var_direction = ACROSS, var_length = 2001\<rparr>"

definition hanging :: "nat \<Rightarrow> variable" where
  "hanging k = \<lparr>var_i = 0, var_j = 2 * k, var_direction = DOWN, var_length = 3\<rparr>"

definition apart :: variable where
  "apart = \<lparr>var_i = 4, var_j = 0, var_direction = ACROSS, var_length = 2\<rparr>"

definition is_hanging :: "variable \<Rightarrow> bool" where
  "is_hanging v \<longleftrightarrow>
     var_i v = 0 \<and> var_direction v = DOWN \<and> var_length v = 3 \<and> even (var_j v) \<and> var_j v < 2001"

definition wide_overlaps :: "variable \<times> variable \<Rightarrow> (nat \<times> nat) option" where
  "wide_overlaps p =
     (if fst p = wide_row \<and> is_hanging (snd p) then Some (var_j (snd p), 0)
      else if is_hanging (fst p) \<and> snd p = wide_row then Some (0, var_j (fst p))
      else None)"

definition wide_words :: "word list" where
  "wide_words =
     [replicate 2001 CHR ''A'', replicate 1999 CHR ''A'' @ ''BA'', ''AA'',
      ''AAA'', ''AAB'', ''ABA'', ''ABB'', ''ABC'']"

definition wide_grid :: crossword where
  "wide_grid = \<lparr>words = wide_words, variables = wide_row # apart # map hanging [0..<1001],
     overlaps = wide_overlaps\<rparr>"

definition wide_domains :: domains where
  "wide_domains =
     (wide_row, [replicate 2001 CHR ''A'', replicate 1999 CHR ''A'' @ ''BA''])
     # (apart, [''AA''])
     # map (\<lambda>k. (hanging k, [''AAA'', ''AAB'', ''ABA'', ''ABB'', ''ABC''])) [0..<1001]"

lemma wide_domains_node_consistency:
  "enforce_node_consistency (init_domains wide_grid) = wide_domains"
  by (simp add: enforce_node_consistency_def init_domains_def wide_grid_def wide_domains_def
      wide_words_def wide_row_def apart_def hanging_def)

lemma hanging_eq [simp]: "hanging j = hanging k \<longleftrightarrow> j = k"
  by (simp add: hanging_def)

lemma hanging_neq [simp]:
  "hanging k \<noteq> wide_row" "hanging k \<noteq> apart" "wide_row \<noteq> hanging k" "apart \<noteq> hanging k"
  "wide_row \<noteq> apart" "apart \<noteq> wide_row"
  by (simp_all add: hanging_def wide_row_def apart_def)

lemma is_hanging_simps [simp]:
  "is_hanging (hanging k) \<longleftrightarrow> k < 1001" "\<not> is_hanging wide_row" "\<not> is_hanging apart"
  by (auto simp: is_hanging_def hanging_def wide_row_def apart_def)

lemma neighbors_wide_row: "neighbors wide_grid wide_row = map hanging [0..<1001]"
  by (simp add: neighbors_def wide_grid_def wide_overlaps_def filter_map comp_def)

lemma neighbors_apart: "neighbors wide_grid apart = []"
  by (simp add: neighbors_def wide_grid_def wide_overlaps_def filter_map comp_def)

lemma neighbors_hanging: "k < 1001 \<Longrightarrow> neighbors wide_grid (hanging k) = [wide_row]"
  by (simp add: neighbors_def wide_grid_def wide_overlaps_def filter_map comp_def)

lemma lookup_wide_row:
  "lookup wide_domains wide_row = Inr [replicate 2001 CHR ''A'', replicate 1999 CHR ''A'' @ ''BA'']"
  by (simp add: lookup_def wide_domains_def)

lemma lookup_apart: "lookup wide_domains apart = Inr [''AA'']"
  by (simp add: lookup_def wide_domains_def)

lemma map_of_hanging:
  "k \<in> set ks \<Longrightarrow> map_of (map (\<lambda>k. (hanging k, c)) ks) (hanging k) = Some c"
  by (induction ks) auto

lemma lookup_hanging:
  "k < 1001 \<Longrightarrow> lookup wide_domains (hanging k) = Inr [''AAA'', ''AAB'', ''ABA'', ''ABB'', ''ABC'']"
  by (simp add: lookup_def wide_domains_def map_of_hanging)

lemma key_wide_row:
  "fl (fl (of_nat 2) - fl (fl (of_nat 1001) * fl (1 / 1000))) = 4499096027743125 / 4503599627370496"
  by code_simp

lemma key_apart:
  "fl (fl (of_nat 1) - fl (fl (of_nat 0) * fl (1 / 1000))) = 1"
  by code_simp

lemma key_hanging:
  "fl (fl (of_nat 5) - fl (fl (of_nat 1) * fl (1 / 1000))) = 5628373634306277 / 1125899906842624"
  by code_simp

lemma select_key_wide_row:
  "select_key wide_grid wide_domains wide_row = Inr (4499096027743125 / 4503599627370496)"
  using key_wide_row by (simp add: select_key_def lookup_wide_row neighbors_wide_row)

lemma select_key_apart: "select_key wide_grid wide_domains apart = Inr 1"
  using key_apart by (simp add: select_key_def lookup_apart neighbors_apart)

lemma select_key_hanging:
  "k < 1001 \<Longrightarrow>
     select_key wide_grid wide_domains (hanging k) = Inr (5628373634306277 / 1125899906842624)"
  using key_hanging by (simp add: select_key_def lookup_hanging neighbors_hanging)


lemma wide_domains_keys:
  "set (map fst wide_domains) = insert wide_row (insert apart (hanging ` {0..<1001}))"
  by (auto simp: wide_domains_def)

lemma select_wide_row:
  assumes so: "\<forall>xs. set (so xs) = set xs"
  shows "select_unassigned_variable so wide_grid wide_domains [] = Inr wide_row"
proof -
  define un where "un = so (map fst wide_domains)"
  have un: "set un = insert wide_row (insert apart (hanging ` {0..<1001}))"
    unfolding un_def using so wide_domains_keys by simp
  have "\<exists>rest. py_sorted (select_key wide_grid wide_domains) un = Inr (wide_row # rest)"
  proof (rule py_sorted_strict_min [where x = wide_row
        and k = "4499096027743125 / 4503599627370496"])
    show "wide_row \<in> set un" using un by simp
  next
    show "select_key wide_grid wide_domains wide_row = Inr (4499096027743125 / 4503599627370496)"
      by (rule select_key_wide_row)
  next
    fix y assume "y \<in> set un" and "y \<noteq> wide_row"
    with un consider "y = apart" | k where "k < 1001" and "y = hanging k" by auto
    then show "\<exists>k'. select_key wide_grid wide_domains y = Inr k'
        \<and> 4499096027743125 / 4503599627370496 < k'"
    proof cases
      case 1
      then have "select_key wide_grid wide_domains y = Inr 1"
        by (simp add: select_key_apart)
      moreover have "(4499096027743125 / 4503599627370496 :: rat) < 1"
        by simp
      ultimately show ?thesis by blast
    next
      case 2
      then have "select_key wide_grid wide_domains y = Inr (5628373634306277 / 1125899906842624)"
        by (simp add: select_key_hanging)
      moreover have "(4499096027743125 / 4503599627370496 :: rat)
          < 5628373634306277 / 1125899906842624"
        by simp
      ultimately show ?thesis by blast
    qed
  qed
  then obtain rest where
    "py_sorted (select_key wide_grid wide_domains) (so (map fst wide_domains)) = Inr (wide_row # rest)"
    unfolding un_def by blast
  then show ?thesis
    by (simp add: select_unassigned_variable_def Let_def)
qed

text \<open>
  C5. In the wide grid, with the domains that node consistency leaves and nothing
  assigned, the variable selected is the slot of the first row, whatever the order in
  which the set of unassigned variables is listed. Its domain holds two words, the
  domain of the separate slot holds one, and the separate slot is unassigned too: the
  variable selected is not one whose domain is the smallest.
\<close>

theorem select_unassigned_variable_not_minimum:
  assumes "\<forall>xs. set (so xs) = set xs"
  shows "\<not> assignment_complete wide_domains []
    \<and> select_unassigned_variable so wide_grid wide_domains [] = Inr wide_row
    \<and> apart \<in> set (map fst wide_domains) \<and> apart \<notin> set (map fst ([] :: assignment))
    \<and> (\<exists>dw da. lookup wide_domains wide_row = Inr dw \<and> lookup wide_domains apart = Inr da
          \<and> length da < length dw)"
proof (intro conjI)
  show "\<not> assignment_complete wide_domains []"
    by (simp add: assignment_complete_def wide_domains_def)
  show "select_unassigned_variable so wide_grid wide_domains [] = Inr wide_row"
    using assms by (rule select_wide_row)
  show "apart \<in> set (map fst wide_domains)"
    unfolding wide_domains_keys by simp
  show "apart \<notin> set (map fst ([] :: assignment))" by simp
  show "\<exists>dw da. lookup wide_domains wide_row = Inr dw \<and> lookup wide_domains apart = Inr da
          \<and> length da < length dw"
    by (simp add: lookup_wide_row lookup_apart)
qed

theorem select_unassigned_variable_not_minimum_witness:
  "select_unassigned_variable (\<lambda>xs. xs) wide_grid wide_domains [] = Inr wide_row"
  using select_unassigned_variable_not_minimum [of "\<lambda>xs. xs"] by simp

end
